theory Spec2Isabelle
  imports Complex_Main "HOL-Library.Word" "HOL-Library.Log_Nat" "HOL-Library.Monad_Syntax"
begin

section \<open>MiniRast: a triangle rasterizer and its bitmap writer (rast.c)\<close>

text \<open>
  The program fills a 512 x 512 RGB888 buffer with one triangle, shaded by its three edge
  functions, and writes the buffer as a 24-bit bitmap file. This theory embeds
  \<^verbatim>\<open>init_edge\<close>, \<^verbatim>\<open>test_edge\<close>, \<^verbatim>\<open>main\<close> and \<^verbatim>\<open>save_pixels_as_bmp\<close> of
  \<^verbatim>\<open>rast.c\<close> and proves properties of them.
\<close>

subsection \<open>Single-precision arithmetic\<close>

text \<open>
  The C type \<^verbatim>\<open>float\<close> is taken to be IEEE 754 binary32 with every operation rounded to
  nearest, ties to even, and evaluated in that format (no wider intermediate results, no
  fused multiply-add). A finite value is the rational number it denotes; the two zeros are
  one value, which no finite result of the program tells apart. \<open>Special\<close> stands for an
  infinity, a NaN, or any value computed from one: the embedding does not follow those, and
  a comparison or an integer conversion of \<open>Special\<close> has no result (\<open>None\<close>).
\<close>

datatype f32 = Finite rat | Special

text \<open>\<open>ilog2 q\<close> is the binary exponent of a non-zero \<open>q\<close>: \<open>2 powi ilog2 q \<le> \<bar>q\<bar> < 2 powi (ilog2 q + 1)\<close>.\<close>

definition ilog2 :: "rat \<Rightarrow> int" where
  "ilog2 q = (if 1 \<le> \<bar>q\<bar> then bitlen \<lfloor>\<bar>q\<bar>\<rfloor> - 1 else - bitlen (\<lceil>1 / \<bar>q\<bar>\<rceil> - 1))"

definition round_even :: "rat \<Rightarrow> int" where
  "round_even s = (let f = \<lfloor>s\<rfloor>; r = s - of_int f in
     if r < 1 / 2 then f else if 1 / 2 < r then f + 1 else if even f then f else f + 1)"

text \<open>
  Rounding to binary32: 24 significant bits, least exponent of the last place \<open>-149\<close>
  (subnormal numbers), overflow from \<open>2 ^ 128\<close> on.
\<close>

definition f32_round :: "rat \<Rightarrow> f32" where
  "f32_round q = (let e = max (ilog2 q - 23) (- 149);
                      r = of_int (round_even (q / 2 powi e)) * 2 powi e
                  in if \<bar>r\<bar> < 2 ^ 128 then Finite r else Special)"

fun fadd :: "f32 \<Rightarrow> f32 \<Rightarrow> f32" where
  "fadd (Finite p) (Finite q) = f32_round (p + q)"
| "fadd _ _ = Special"

fun fsub :: "f32 \<Rightarrow> f32 \<Rightarrow> f32" where
  "fsub (Finite p) (Finite q) = f32_round (p - q)"
| "fsub _ _ = Special"

fun fmul :: "f32 \<Rightarrow> f32 \<Rightarrow> f32" where
  "fmul (Finite p) (Finite q) = f32_round (p * q)"
| "fmul _ _ = Special"

fun fdiv :: "f32 \<Rightarrow> f32 \<Rightarrow> f32" where
  "fdiv (Finite p) (Finite q) = (if q = 0 then Special else f32_round (p / q))"
| "fdiv _ _ = Special"

text \<open>The comparison \<^verbatim>\<open>d > e\<close>.\<close>

fun fgt :: "f32 \<Rightarrow> f32 \<Rightarrow> bool option" where
  "fgt (Finite p) (Finite q) = Some (q < p)"
| "fgt _ _ = None"

text \<open>Conversion of an unsigned or non-negative integer to \<^verbatim>\<open>float\<close>.\<close>

definition f32_of_nat :: "nat \<Rightarrow> f32" where
  "f32_of_nat n = f32_round (of_nat n)"

type_synonym u8 = "8 word"

text \<open>
  The cast \<^verbatim>\<open>(uint8_t) f\<close> discards the fraction (rounds toward zero); where the integral part
  is not a value of \<^verbatim>\<open>uint8_t\<close> the behaviour is undefined in C, here \<open>None\<close>.
\<close>

definition trunc_zero :: "rat \<Rightarrow> int" where
  "trunc_zero q = (if 0 \<le> q then \<lfloor>q\<rfloor> else \<lceil>q\<rceil>)"

definition f32_to_u8 :: "f32 \<Rightarrow> u8 option" where
  "f32_to_u8 f = (case f of
       Special \<Rightarrow> None
     | Finite q \<Rightarrow> (let t = trunc_zero q
                    in if 0 \<le> t \<and> t \<le> 255 then Some (word_of_int t) else None))"

subsection \<open>Edges\<close>

record vec2_t =
  vec_x :: f32
  vec_y :: f32

record edge_t =
  edge_a :: f32
  edge_b :: f32
  edge_c :: f32

definition init_edge :: "vec2_t \<Rightarrow> vec2_t \<Rightarrow> edge_t" where
  "init_edge v0 v1 =
     \<lparr> edge_a = fsub (vec_y v0) (vec_y v1),
       edge_b = fsub (vec_x v1) (vec_x v0),
       edge_c = fsub (fmul (vec_x v0) (vec_y v1)) (fmul (vec_y v0) (vec_x v1)) \<rparr>"

definition test_edge :: "edge_t \<Rightarrow> vec2_t \<Rightarrow> f32" where
  "test_edge edge point =
     fadd (fadd (fmul (edge_a edge) (vec_x point)) (fmul (edge_b edge) (vec_y point)))
          (edge_c edge)"

text \<open>
  The triangle set-up of \<^verbatim>\<open>main\<close>: the three edges of the vertices \<open>v0\<close>, \<open>v1\<close>, \<open>v2\<close>
  and the sum of their c-terms.
\<close>

definition triangle_edges :: "vec2_t \<Rightarrow> vec2_t \<Rightarrow> vec2_t \<Rightarrow> edge_t \<times> edge_t \<times> edge_t" where
  "triangle_edges v0 v1 v2 = (init_edge v2 v1, init_edge v0 v2, init_edge v1 v0)"

definition triangle_area :: "vec2_t \<Rightarrow> vec2_t \<Rightarrow> vec2_t \<Rightarrow> f32" where
  "triangle_area v0 v1 v2 =
     (case triangle_edges v0 v1 v2 of (edge0, edge1, edge2) \<Rightarrow>
        fadd (fadd (edge_c edge0) (edge_c edge1)) (edge_c edge2))"

text \<open>
  The formula the specification gives for the area, in exact arithmetic:
  \<^verbatim>\<open>(v1.x-v0.x)*(v2.y-v0.y) - (v2.x-v0.x)*(v1.y-v0.y)\<close>.
\<close>

definition shoelace :: "rat \<times> rat \<Rightarrow> rat \<times> rat \<Rightarrow> rat \<times> rat \<Rightarrow> rat" where
  "shoelace p0 p1 p2 =
     (fst p1 - fst p0) * (snd p2 - snd p0) - (fst p2 - fst p0) * (snd p1 - snd p0)"

definition vec2 :: "rat \<times> rat \<Rightarrow> vec2_t" where
  "vec2 p = \<lparr> vec_x = Finite (fst p), vec_y = Finite (snd p) \<rparr>"

text \<open>
  The half-integer grid of the canvas: coordinates that are multiples of \<open>1/2\<close> of
  magnitude at most 512. The vertices of \<^verbatim>\<open>main\<close> and all pixel centres lie on it.
\<close>

definition half_grid :: "rat \<Rightarrow> bool" where
  "half_grid q \<longleftrightarrow> of_int \<lfloor>2 * q\<rfloor> = 2 * q \<and> \<bar>q\<bar> \<le> 512"

definition on_grid :: "rat \<times> rat \<Rightarrow> bool" where
  "on_grid p \<longleftrightarrow> half_grid (fst p) \<and> half_grid (snd p)"

text \<open>
  \<open>dyadic k B q\<close>: \<open>q\<close> is an integer of magnitude at most \<open>B\<close> divided by \<open>2 ^ k\<close>.
  Such a number is a binary32 value when \<open>B < 2 ^ 24\<close> and \<open>k \<le> 149\<close>.
\<close>

definition dyadic :: "nat \<Rightarrow> int \<Rightarrow> rat \<Rightarrow> bool" where
  "dyadic k B q \<longleftrightarrow> of_int \<lfloor>q * 2 ^ k\<rfloor> = q * 2 ^ k \<and> \<bar>q * 2 ^ k\<bar> \<le> of_int B"

subsection \<open>The rasterizer of \<^verbatim>\<open>main\<close>\<close>

definition WIDTH :: nat where "WIDTH = 512"
definition HEIGHT :: nat where "HEIGHT = 512"

definition main_v0 :: vec2_t where
  "main_v0 = \<lparr> vec_x = fsub (fdiv (f32_of_nat WIDTH) (Finite 2)) (Finite (1 / 2)),
               vec_y = Finite (1 / 2) \<rparr>"

definition main_v1 :: vec2_t where
  "main_v1 = \<lparr> vec_x = Finite (1 / 2),
               vec_y = fsub (f32_of_nat HEIGHT) (Finite (1 / 2)) \<rparr>"

definition main_v2 :: vec2_t where
  "main_v2 = \<lparr> vec_x = fsub (f32_of_nat WIDTH) (Finite (1 / 2)),
               vec_y = fsub (fdiv (f32_of_nat HEIGHT) (Finite 2)) (Finite (1 / 2)) \<rparr>"

definition main_edge0 :: edge_t where "main_edge0 = init_edge main_v2 main_v1"
definition main_edge1 :: edge_t where "main_edge1 = init_edge main_v0 main_v2"
definition main_edge2 :: edge_t where "main_edge2 = init_edge main_v1 main_v0"

definition main_area :: f32 where
  "main_area = fadd (fadd (edge_c main_edge0) (edge_c main_edge1)) (edge_c main_edge2)"

text \<open>
  Buffer accesses are checked: an index outside the buffer is undefined behaviour in C and
  \<open>None\<close> here. The index of \<^verbatim>\<open>main\<close> is computed in \<^verbatim>\<open>unsigned\<close> (32-bit) arithmetic.
\<close>

definition store :: "u8 list \<Rightarrow> nat \<Rightarrow> u8 \<Rightarrow> u8 list option" where
  "store buf i v = (if i < length buf then Some (buf[i := v]) else None)"

definition pixel_index :: "nat \<Rightarrow> nat \<Rightarrow> nat \<Rightarrow> nat" where
  "pixel_index x y ch = ((y * WIDTH + x) * 3 + ch) mod 2 ^ 32"

definition pixel_centre :: "nat \<Rightarrow> nat \<Rightarrow> vec2_t" where
  "pixel_centre x y = \<lparr> vec_x = fadd (f32_of_nat x) (Finite (1 / 2)),
                        vec_y = fadd (f32_of_nat y) (Finite (1 / 2)) \<rparr>"

text \<open>The test \<^verbatim>\<open>d0 > 0.0f && d1 > 0.0f && d2 > 0.0f\<close>, evaluated left to right.\<close>

definition inside :: "f32 \<Rightarrow> f32 \<Rightarrow> f32 \<Rightarrow> bool option" where
  "inside d0 d1 d2 =
     (case fgt d0 (Finite 0) of
        None \<Rightarrow> None
      | Some False \<Rightarrow> Some False
      | Some True \<Rightarrow>
          (case fgt d1 (Finite 0) of
             None \<Rightarrow> None
           | Some False \<Rightarrow> Some False
           | Some True \<Rightarrow> fgt d2 (Finite 0)))"

text \<open>The body of the pixel loop.\<close>

definition shade_pixel ::
  "edge_t \<Rightarrow> edge_t \<Rightarrow> edge_t \<Rightarrow> f32 \<Rightarrow> nat \<Rightarrow> nat \<Rightarrow> u8 list \<Rightarrow> u8 list option" where
  "shade_pixel edge0 edge1 edge2 area x y pixels =
     (let point = pixel_centre x y;
          d0 = test_edge edge0 point;
          d1 = test_edge edge1 point;
          d2 = test_edge edge2 point
      in case inside d0 d1 d2 of
           None \<Rightarrow> None
         | Some False \<Rightarrow> Some pixels
         | Some True \<Rightarrow>
             (let i = fdiv d0 area; j = fdiv d1 area; k = fdiv d2 area
              in do {
                   r \<leftarrow> f32_to_u8 (fmul i (Finite 255));
                   pixels1 \<leftarrow> store pixels (pixel_index x y 0) r;
                   g \<leftarrow> f32_to_u8 (fmul j (Finite 255));
                   pixels2 \<leftarrow> store pixels1 (pixel_index x y 1) g;
                   b \<leftarrow> f32_to_u8 (fmul k (Finite 255));
                   store pixels2 (pixel_index x y 2) b
                 }))"

function row_loop ::
  "edge_t \<Rightarrow> edge_t \<Rightarrow> edge_t \<Rightarrow> f32 \<Rightarrow> nat \<Rightarrow> nat \<Rightarrow> u8 list \<Rightarrow> u8 list option" where
  "row_loop edge0 edge1 edge2 area y x pixels =
     (if x < WIDTH then
        (case shade_pixel edge0 edge1 edge2 area x y pixels of
           None \<Rightarrow> None
         | Some pixels' \<Rightarrow> row_loop edge0 edge1 edge2 area y (x + 1) pixels')
      else Some pixels)"
  by pat_completeness auto
termination
  by (relation "measure (\<lambda>(edge0, edge1, edge2, area, y, x, pixels). WIDTH - x)") auto

declare row_loop.simps [simp del]

function raster_loop ::
  "edge_t \<Rightarrow> edge_t \<Rightarrow> edge_t \<Rightarrow> f32 \<Rightarrow> nat \<Rightarrow> u8 list \<Rightarrow> u8 list option" where
  "raster_loop edge0 edge1 edge2 area y pixels =
     (if y < HEIGHT then
        (case row_loop edge0 edge1 edge2 area y 0 pixels of
           None \<Rightarrow> None
         | Some pixels' \<Rightarrow> raster_loop edge0 edge1 edge2 area (y + 1) pixels')
      else Some pixels)"
  by pat_completeness auto
termination
  by (relation "measure (\<lambda>(edge0, edge1, edge2, area, y, pixels). HEIGHT - y)") auto

declare raster_loop.simps [simp del]

text \<open>The buffer of \<^verbatim>\<open>main\<close> after \<^verbatim>\<open>malloc\<close> and \<^verbatim>\<open>memset\<close>, and after the pixel loops.\<close>

definition cleared :: "u8 list" where
  "cleared = replicate (WIDTH * HEIGHT * 3) 0"

definition rasterize :: "u8 list \<Rightarrow> u8 list option" where
  "rasterize pixels = raster_loop main_edge0 main_edge1 main_edge2 main_area 0 pixels"

text \<open>
  The colour \<^verbatim>\<open>main\<close> computes for the pixel \<open>(x, y)\<close>: the three channel values of a
  pixel that passes the test, \<open>None\<close> for a pixel that does not (or whose computation
  leaves the embedding). \<open>paint\<close> writes it into a buffer.
\<close>

definition pixel_colour :: "nat \<Rightarrow> nat \<Rightarrow> (u8 \<times> u8 \<times> u8) option" where
  "pixel_colour x y =
     (let point = pixel_centre x y;
          d0 = test_edge main_edge0 point;
          d1 = test_edge main_edge1 point;
          d2 = test_edge main_edge2 point
      in if inside d0 d1 d2 = Some True then
           (case (f32_to_u8 (fmul (fdiv d0 main_area) (Finite 255)),
                  f32_to_u8 (fmul (fdiv d1 main_area) (Finite 255)),
                  f32_to_u8 (fmul (fdiv d2 main_area) (Finite 255))) of
              (Some r, Some g, Some b) \<Rightarrow> Some (r, g, b)
            | _ \<Rightarrow> None)
         else None)"

definition paint :: "nat \<Rightarrow> nat \<Rightarrow> u8 list \<Rightarrow> u8 list" where
  "paint x y pixels =
     (case pixel_colour x y of
        None \<Rightarrow> pixels
      | Some (r, g, b) \<Rightarrow>
          pixels[pixel_index x y 0 := r, pixel_index x y 1 := g, pixel_index x y 2 := b])"

text \<open>The effect of one pass of the inner loop on the row \<open>y\<close>.\<close>

definition paint_row :: "nat \<Rightarrow> u8 list \<Rightarrow> u8 list" where
  "paint_row y pixels = fold (\<lambda>x'. paint x' y) [0..<WIDTH] pixels"

subsection \<open>The bitmap writer\<close>

text \<open>
  Arithmetic on \<^verbatim>\<open>int\<close> (32 bits): a result outside the type is undefined behaviour,
  here \<open>None\<close>. \<open>c_rem\<close> is the remainder \<^verbatim>\<open>%\<close> of C, whose quotient truncates.
\<close>

definition c_int :: "int \<Rightarrow> int option" where
  "c_int v = (if - (2 ^ 31) \<le> v \<and> v < 2 ^ 31 then Some v else None)"

definition c_rem :: "int \<Rightarrow> int \<Rightarrow> int" where
  "c_rem a b = a - b * (sgn a * sgn b * (\<bar>a\<bar> div \<bar>b\<bar>))"

definition bmp_padding :: "int \<Rightarrow> int option" where
  "bmp_padding w = do { w3 \<leftarrow> c_int (w * 3); Some (c_rem (4 - c_rem w3 4) 4) }"

definition bmp_size :: "int \<Rightarrow> int \<Rightarrow> int option" where
  "bmp_size w h = do {
     w3 \<leftarrow> c_int (w * 3);
     padding \<leftarrow> bmp_padding w;
     row \<leftarrow> c_int (w3 + padding);
     body \<leftarrow> c_int (row * h);
     c_int (54 + body)
   }"

text \<open>
  The bytes \<^verbatim>\<open>(uint8_t)(v)\<close>, \<^verbatim>\<open>(uint8_t)(v >> 8)\<close>, \<^verbatim>\<open>(uint8_t)(v >> 16)\<close>,
  \<^verbatim>\<open>(uint8_t)(v >> 24)\<close> (the shift of a negative value taken as arithmetic).
\<close>

definition le32 :: "int \<Rightarrow> u8 list" where
  "le32 v = [word_of_int v, word_of_int (drop_bit 8 v),
             word_of_int (drop_bit 16 v), word_of_int (drop_bit 24 v)]"

definition bmp_header :: "int \<Rightarrow> int \<Rightarrow> int \<Rightarrow> u8 list" where
  "bmp_header fsize w h =
     [0x42, 0x4D] @ le32 fsize @
     [0, 0, 0, 0, 54, 0, 0, 0, 40, 0, 0, 0] @ le32 w @ le32 h @
     [1, 0, 24, 0, 0, 0, 0, 0, 0, 0, 0, 0, 0, 0, 0, 0, 0, 0, 0, 0, 0, 0, 0, 0, 0, 0, 0, 0]"

text \<open>
  The output buffer with the write pointer \<^verbatim>\<open>ptr\<close> as an index into it; \<open>put\<close> is
  \<^verbatim>\<open>*ptr = v\<close> followed by \<^verbatim>\<open>ptr++\<close>, and \<open>load\<close> a read of the pixel array.
\<close>

type_synonym out = "u8 list \<times> nat"

definition put :: "out \<Rightarrow> u8 \<Rightarrow> out option" where
  "put s v = (case s of (bytes, ptr) \<Rightarrow>
                if ptr < length bytes then Some (bytes[ptr := v], ptr + 1) else None)"

definition load :: "u8 list \<Rightarrow> int \<Rightarrow> u8 option" where
  "load buf i = (if 0 \<le> i \<and> i < int (length buf) then Some (buf ! nat i) else None)"

function channel_loop :: "u8 list \<Rightarrow> int \<Rightarrow> int \<Rightarrow> int \<Rightarrow> int \<Rightarrow> out \<Rightarrow> out option" where
  "channel_loop pixels w x y i s =
     (if 0 \<le> i then
        (case load pixels ((y * w + x) * 3 + i) of
           None \<Rightarrow> None
         | Some v \<Rightarrow>
             (case put s v of
                None \<Rightarrow> None
              | Some s' \<Rightarrow> channel_loop pixels w x y (i - 1) s'))
      else Some s)"
  by pat_completeness auto
termination
  by (relation "measure (\<lambda>(pixels, w, x, y, i, s). nat (i + 1))") auto

declare channel_loop.simps [simp del]

function pixel_loop :: "u8 list \<Rightarrow> int \<Rightarrow> int \<Rightarrow> int \<Rightarrow> out \<Rightarrow> out option" where
  "pixel_loop pixels w y x s =
     (if x < w then
        (case channel_loop pixels w x y 2 s of
           None \<Rightarrow> None
         | Some s' \<Rightarrow> pixel_loop pixels w y (x + 1) s')
      else Some s)"
  by pat_completeness auto
termination
  by (relation "measure (\<lambda>(pixels, w, y, x, s). nat (w - x))") auto

declare pixel_loop.simps [simp del]

function padding_loop :: "int \<Rightarrow> int \<Rightarrow> out \<Rightarrow> out option" where
  "padding_loop padding i s =
     (if i < padding then
        (case put s 0 of
           None \<Rightarrow> None
         | Some s' \<Rightarrow> padding_loop padding (i + 1) s')
      else Some s)"
  by pat_completeness auto
termination
  by (relation "measure (\<lambda>(padding, i, s). nat (padding - i))") auto

declare padding_loop.simps [simp del]

function rows_loop :: "u8 list \<Rightarrow> int \<Rightarrow> int \<Rightarrow> int \<Rightarrow> out \<Rightarrow> out option" where
  "rows_loop pixels w padding y s =
     (if 0 \<le> y then
        (case pixel_loop pixels w y 0 s of
           None \<Rightarrow> None
         | Some s1 \<Rightarrow>
             (case padding_loop padding 0 s1 of
                None \<Rightarrow> None
              | Some s2 \<Rightarrow> rows_loop pixels w padding (y - 1) s2))
      else Some s)"
  by pat_completeness auto
termination
  by (relation "measure (\<lambda>(pixels, w, padding, y, s). nat (y + 1))") auto

declare rows_loop.simps [simp del]

text \<open>
  The byte buffer that \<^verbatim>\<open>save_pixels_as_bmp\<close> builds. \<open>fresh\<close> gives the indeterminate
  contents of the memory \<^verbatim>\<open>malloc\<close> returns; the allocation is taken to succeed for a
  size that is not negative. With a size below 54 the \<^verbatim>\<open>memcpy\<close> of the header leaves
  the buffer. The index \<^verbatim>\<open>(y*w+x)*3+i\<close> is below \<open>size\<close> wherever it is computed, so
  it needs no overflow check of its own. (\<open>fsize\<close> is the \<^verbatim>\<open>size\<close> of the source.)
\<close>

definition bmp_bytes :: "(nat \<Rightarrow> u8) \<Rightarrow> u8 list \<Rightarrow> int \<Rightarrow> int \<Rightarrow> u8 list option" where
  "bmp_bytes fresh pixels w h = do {
     padding \<leftarrow> bmp_padding w;
     fsize \<leftarrow> bmp_size w h;
     top \<leftarrow> c_int (h - 1);
     if fsize < 54 then None
     else do {
       let bytes = map fresh [0..<nat fsize];
       let bytes = bmp_header fsize w h @ drop 54 bytes;
       s \<leftarrow> rows_loop pixels w padding top (bytes, 54);
       Some (fst s)
     }
   }"

text \<open>
  The environment of the process: which paths \<^verbatim>\<open>fopen\<close> can open for writing, the
  files, the standard output, and the contents of newly allocated memory. \<^verbatim>\<open>fwrite\<close>
  and \<^verbatim>\<open>fclose\<close> are taken to succeed; the program does not check them.
\<close>

record world =
  can_open :: "string \<Rightarrow> bool"
  files :: "string \<Rightarrow> u8 list option"
  stdout :: string
  fresh_memory :: "nat \<Rightarrow> u8"

datatype exit_status = EXIT_SUCCESS | EXIT_FAILURE

definition save_pixels_as_bmp ::
  "string \<Rightarrow> u8 list \<Rightarrow> int \<Rightarrow> int \<Rightarrow> world \<Rightarrow> (exit_status \<times> world) option" where
  "save_pixels_as_bmp path pixels w h env =
     (case bmp_bytes (fresh_memory env) pixels w h of
        None \<Rightarrow> None
      | Some bytes \<Rightarrow>
          if can_open env path then
            Some (EXIT_SUCCESS, env\<lparr>files := (files env)(path \<mapsto> bytes)\<rparr>)
          else
            Some (EXIT_FAILURE,
                  env\<lparr>stdout := stdout env @ ''Failed to open file '' @ [CHR 0x27] @ path
                                   @ [CHR 0x27, CHR 0x0A]\<rparr>))"

definition main :: "world \<Rightarrow> (exit_status \<times> world) option" where
  "main env =
     (case rasterize cleared of
        None \<Rightarrow> None
      | Some pixels \<Rightarrow> save_pixels_as_bmp ''result.bmp'' pixels (int WIDTH) (int HEIGHT) env)"

text \<open>
  The layout of the file in the words of the specification: the header, then the rows
  from the last to the first, each pixel as B, G, R, each row padded with zero bytes.
\<close>

definition bmp_row :: "u8 list \<Rightarrow> nat \<Rightarrow> nat \<Rightarrow> nat \<Rightarrow> u8 list" where
  "bmp_row pixels w padding y =
     concat (map (\<lambda>x. [pixels ! ((y * w + x) * 3 + 2),
                         pixels ! ((y * w + x) * 3 + 1),
                         pixels ! ((y * w + x) * 3)]) [0..<w])
     @ replicate padding 0"

definition bmp_layout :: "u8 list \<Rightarrow> nat \<Rightarrow> nat \<Rightarrow> u8 list" where
  "bmp_layout pixels w h =
     (let padding = (4 - (w * 3) mod 4) mod 4;
          fsize = 54 + (w * 3 + padding) * h
      in bmp_header (int fsize) (int w) (int h)
         @ concat (map (bmp_row pixels w padding) (rev [0..<h])))"

text \<open>
  Two notions for the proofs about the writer: \<open>write_at s vs\<close> is the buffer and
  pointer after the bytes \<open>vs\<close> have been written from the pointer on, and
  \<open>bgr pixels w y x\<close> are the three bytes the writer emits for the pixel \<open>(x, y)\<close>.
\<close>

definition write_at :: "out \<Rightarrow> u8 list \<Rightarrow> out" where
  "write_at s vs = (case s of (bytes, ptr) \<Rightarrow>
     (take ptr bytes @ vs @ drop (ptr + length vs) bytes, ptr + length vs))"

definition bgr :: "u8 list \<Rightarrow> nat \<Rightarrow> nat \<Rightarrow> nat \<Rightarrow> u8 list" where
  "bgr pixels w y x = [pixels ! ((y * w + x) * 3 + 2), pixels ! ((y * w + x) * 3 + 1),
                       pixels ! ((y * w + x) * 3)]"

section \<open>Properties\<close>

subsection \<open>Rounding to binary32\<close>

lemma ilog2_lower:
  assumes "q \<noteq> 0"
  shows "2 powi ilog2 q \<le> \<bar>q\<bar>"
proof (cases "1 \<le> \<bar>q\<bar>")
  case True
  define n where "n = \<lfloor>\<bar>q\<bar>\<rfloor>"
  have n1: "1 \<le> n" using True by (simp add: n_def le_floor_iff)
  then have b: "(2::int) ^ nat (bitlen n - 1) \<le> n"
    using bitlen_bounds [of n] by simp
  have bl: "1 \<le> bitlen n" using n1 by (simp add: bitlen_def floorlog_def)
  have "(2::rat) powi (bitlen n - 1) = 2 ^ nat (bitlen n - 1)"
    using bl by (simp add: power_int_def)
  also have "\<dots> = of_int (2 ^ nat (bitlen n - 1))" by simp
  also have "\<dots> \<le> of_int n" using b by (simp only: of_int_le_iff)
  also have "\<dots> \<le> \<bar>q\<bar>" by (simp add: n_def)
  finally show ?thesis using True by (simp add: ilog2_def n_def)
next
  case False
  define r where "r = 1 / \<bar>q\<bar>"
  define n where "n = \<lceil>r\<rceil> - 1"
  have q0: "0 < \<bar>q\<bar>" using assms by simp
  have r1: "1 < r" using False q0 by (simp add: r_def)
  then have n1: "1 \<le> n" unfolding n_def by (simp add: less_ceiling_iff)
  then have b: "n < 2 ^ nat (bitlen n)" using bitlen_bounds [of n] by simp
  then have "\<lceil>r\<rceil> \<le> 2 ^ nat (bitlen n)" by (simp add: n_def)
  then have "r \<le> of_int (2 ^ nat (bitlen n))" by (simp only: ceiling_le_iff)
  then have rb: "r \<le> 2 ^ nat (bitlen n)" by simp
  have "1 / 2 ^ nat (bitlen n) \<le> 1 / r"
    using rb r1 by (intro divide_left_mono) auto
  then have "1 / 2 ^ nat (bitlen n) \<le> \<bar>q\<bar>" by (simp add: r_def)
  moreover have "(2::rat) powi (- bitlen n) = 1 / 2 ^ nat (bitlen n)"
    using bitlen_nonneg [of n] by (simp add: power_int_def field_simps)
  ultimately show ?thesis using False by (simp add: ilog2_def n_def r_def)
qed

lemma ilog2_upper: "\<bar>q\<bar> < 2 powi (ilog2 q + 1)"
proof (cases "1 \<le> \<bar>q\<bar>")
  case True
  define n where "n = \<lfloor>\<bar>q\<bar>\<rfloor>"
  have n1: "1 \<le> n" using True by (simp add: n_def le_floor_iff)
  then have b: "n + 1 \<le> 2 ^ nat (bitlen n)" using bitlen_bounds [of n] by simp
  have "\<bar>q\<bar> < of_int (n + 1)" unfolding n_def by linarith
  also have "\<dots> \<le> of_int (2 ^ nat (bitlen n))" using b by (simp only: of_int_le_iff)
  also have "\<dots> = 2 powi (bitlen n)" using bitlen_nonneg [of n] by (simp add: power_int_def)
  finally show ?thesis using True by (simp add: ilog2_def n_def)
next
  case False
  show ?thesis
  proof (cases "q = 0")
    case True
    then show ?thesis by (simp add: ilog2_def)
  next
    case q: False
    define r where "r = 1 / \<bar>q\<bar>"
    define n where "n = \<lceil>r\<rceil> - 1"
    have q0: "0 < \<bar>q\<bar>" using q by simp
    have r1: "1 < r" using False q0 by (simp add: r_def)
    then have n1: "1 \<le> n" unfolding n_def by (simp add: less_ceiling_iff)
    then have b: "2 ^ nat (bitlen n - 1) \<le> n" using bitlen_bounds [of n] by simp
    have bl: "1 \<le> bitlen n" using n1 by (simp add: bitlen_def floorlog_def)
    have "(2::rat) ^ nat (bitlen n - 1) = of_int (2 ^ nat (bitlen n - 1))" by simp
    also have "\<dots> \<le> of_int n" using b by (simp only: of_int_le_iff)
    also have "\<dots> < r" unfolding n_def by linarith
    finally have lt: "2 ^ nat (bitlen n - 1) < r" .
    have "1 / r < 1 / 2 ^ nat (bitlen n - 1)"
      using lt r1 by (intro divide_strict_left_mono) auto
    then have "\<bar>q\<bar> < 1 / 2 ^ nat (bitlen n - 1)" by (simp add: r_def)
    moreover have "(2::rat) powi (- bitlen n + 1) = 1 / 2 ^ nat (bitlen n - 1)"
      using bl by (simp add: power_int_def field_simps nat_diff_distrib)
    ultimately show ?thesis using False by (simp add: ilog2_def n_def r_def)
  qed
qed

lemma round_even_of_int: "round_even (of_int m) = m"
  by (simp add: round_even_def)

lemma round_even_error: "\<bar>of_int (round_even s) - s\<bar> \<le> 1 / 2"
proof -
  have "of_int \<lfloor>s\<rfloor> \<le> s" "s < of_int \<lfloor>s\<rfloor> + 1" by linarith+
  then show ?thesis by (auto simp: round_even_def Let_def abs_le_iff)
qed

lemma round_even_nonneg: "0 \<le> s \<Longrightarrow> 0 \<le> round_even s"
  by (auto simp: round_even_def Let_def)


lemma ilog2_less:
  assumes "q \<noteq> 0" and "\<bar>q\<bar> < 2 powi k"
  shows "ilog2 q < k"
proof (rule ccontr)
  assume "\<not> ilog2 q < k"
  then have "(2::rat) powi k \<le> 2 powi ilog2 q"
    by (intro power_int_increasing) auto
  with ilog2_lower [OF assms(1)] assms(2) show False by linarith
qed

lemma f32_round_zero: "f32_round 0 = Finite 0"
  by (simp add: f32_round_def round_even_def)

lemma f32_round_exact:
  fixes m :: int and k :: nat
  assumes m: "\<bar>m\<bar> < 2 ^ 24" and k: "k \<le> 149"
  shows "f32_round (of_int m / 2 ^ k) = Finite (of_int m / 2 ^ k)"
proof (cases "m = 0")
  case True
  then show ?thesis by (simp add: f32_round_zero)
next
  case False
  define q :: rat where "q = of_int m / 2 ^ k"
  define e where "e = max (ilog2 q - 23) (- 149)"
  have q0: "q \<noteq> 0" using False by (simp add: q_def)
  have "\<bar>q\<bar> = of_int \<bar>m\<bar> / 2 ^ k" by (simp add: q_def abs_divide)
  also have "\<dots> < of_int (2 ^ 24) / 2 ^ k"
    using m by (intro divide_strict_right_mono) (simp_all only: of_int_less_iff zero_less_power zero_less_numeral)
  also have "\<dots> = 2 powi (24 - int k)"
    by (simp add: power_int_diff)
  finally have "ilog2 q < 24 - int k" using q0 by (intro ilog2_less)
  then have ek: "e \<le> - int k" using k by (simp add: e_def)
  define j where "j = nat (- int k - e)"
  have "q / 2 powi e = of_int m * 2 powi (- int k - e)"
    by (simp add: q_def power_int_diff power_int_minus field_simps)
  also have "\<dots> = of_int (m * 2 ^ j)"
    using ek by (simp add: j_def power_int_def)
  finally have s: "q / 2 powi e = of_int (m * 2 ^ j)" .
  have r: "of_int (round_even (q / 2 powi e)) * 2 powi e = q"
  proof -
    have "of_int (round_even (q / 2 powi e)) * 2 powi e = (q / 2 powi e) * 2 powi e"
      unfolding s round_even_of_int ..
    then show ?thesis by simp
  qed
  have "\<bar>q\<bar> < 2 ^ 24"
  proof -
    have "\<bar>q\<bar> \<le> of_int \<bar>m\<bar>"
      by (simp add: q_def abs_divide divide_le_eq mult_le_cancel_left1)
    also have "\<dots> < of_int (2 ^ 24)" using m by (simp only: of_int_less_iff)
    finally show ?thesis by simp
  qed
  then have "\<bar>q\<bar> < 2 ^ 128" by simp
  then show ?thesis
    unfolding f32_round_def Let_def e_def [symmetric] q_def [symmetric] r by simp
qed

lemma f32_round_error:
  assumes q: "\<bar>q\<bar> < 2 powi k" and k: "- 125 \<le> k" "k \<le> 127"
  shows "\<exists>r. f32_round q = Finite r \<and> \<bar>r - q\<bar> \<le> 2 powi (k - 25)"
proof -
  define e where "e = max (ilog2 q - 23) (- 149)"
  define r :: rat where "r = of_int (round_even (q / 2 powi e)) * 2 powi e"
  have ek: "e \<le> k - 24" if "q \<noteq> 0"
    using ilog2_less [OF that q] k by (simp add: e_def)
  have p: "(0::rat) < 2 powi e" by simp
  have "r - q = (of_int (round_even (q / 2 powi e)) - q / 2 powi e) * 2 powi e"
    by (simp add: r_def algebra_simps)
  then have "\<bar>r - q\<bar> = \<bar>of_int (round_even (q / 2 powi e)) - q / 2 powi e\<bar> * 2 powi e"
    by (simp add: abs_mult)
  also have "\<dots> \<le> (1 / 2) * 2 powi e"
    by (intro mult_right_mono round_even_error) simp
  also have "\<dots> = 2 powi (e - 1)" by (simp add: power_int_diff)
  finally have err: "\<bar>r - q\<bar> \<le> 2 powi (e - 1)" .
  have bound: "\<bar>r - q\<bar> \<le> 2 powi (k - 25)"
  proof (cases "q = 0")
    case True
    then show ?thesis by (simp add: r_def round_even_def)
  next
    case False
    have "(2::rat) powi (e - 1) \<le> 2 powi (k - 25)"
      using ek [OF False] by (intro power_int_increasing) auto
    with err show ?thesis by linarith
  qed
  have "\<bar>r\<bar> \<le> \<bar>q\<bar> + \<bar>r - q\<bar>" by linarith
  also have "\<dots> < 2 powi k + 2 powi (k - 25)" using q bound by linarith
  also have "\<dots> \<le> 2 powi 127 + 2 powi 127"
    using k by (intro add_mono power_int_increasing) auto
  also have "\<dots> = 2 ^ 128" by simp
  finally have "\<bar>r\<bar> < 2 ^ 128" .
  then have "f32_round q = Finite r"
    by (simp add: f32_round_def Let_def e_def r_def)
  with bound show ?thesis by blast
qed

lemma f32_round_nonneg:
  assumes "0 \<le> q" and "f32_round q = Finite r"
  shows "0 \<le> r"
proof -
  have "0 \<le> round_even (q / 2 powi e)" for e
    using assms(1) by (intro round_even_nonneg) simp
  then show ?thesis
    using assms(2) by (auto simp: f32_round_def Let_def split: if_splits)
qed

lemma ilog2_eqI:
  assumes "2 powi E \<le> \<bar>q\<bar>" and "\<bar>q\<bar> < 2 powi (E + 1)"
  shows "ilog2 q = E"
proof -
  have "(0::rat) < 2 powi E" by simp
  with assms(1) have "0 < \<bar>q\<bar>" by linarith
  then have q: "q \<noteq> 0" by simp
  have a: "ilog2 q < E + 1" using q assms(2) by (rule ilog2_less)
  have "(2::rat) powi E < 2 powi (ilog2 q + 1)" using assms(1) ilog2_upper [of q] by linarith
  then have "E < ilog2 q + 1"
    by (rule contrapos_pp) (simp add: not_less power_int_increasing)
  with a show ?thesis by linarith
qed

lemma round_even_nearest:
  assumes "\<bar>s - of_int m\<bar> < 1 / 2"
  shows "round_even s = m"
proof (cases "of_int m \<le> s")
  case True
  then have "\<lfloor>s\<rfloor> = m" using assms by (intro floor_unique) linarith+
  then show ?thesis using assms True by (simp add: round_even_def Let_def)
next
  case False
  have "of_int (m - 1) \<le> s" "s < of_int (m - 1) + 1" using assms False by simp_all
  then have f: "\<lfloor>s\<rfloor> = m - 1" by (rule floor_unique)
  have "1 / 2 < s - of_int (m - 1)" using assms False by (simp, linarith?)
  then show ?thesis unfolding round_even_def Let_def f by simp
qed

lemma f32_round_eval:
  assumes "2 powi E \<le> \<bar>q\<bar>" and "\<bar>q\<bar> < 2 powi (E + 1)" and "- 126 \<le> E" and "E \<le> 126"
    and "\<bar>q / 2 powi (E - 23) - of_int m\<bar> < 1 / 2"
  shows "f32_round q = Finite (of_int m * 2 powi (E - 23))"
proof -
  have e: "max (ilog2 q - 23) (- 149) = E - 23"
    using ilog2_eqI [OF assms(1,2)] assms(3) by simp
  have m: "round_even (q / 2 powi (E - 23)) = m" using assms(5) by (rule round_even_nearest)
  have "\<bar>q / 2 powi (E - 23)\<bar> = \<bar>q\<bar> / 2 powi (E - 23)" by (simp add: abs_divide)
  also have "\<dots> < 2 powi (E + 1) / 2 powi (E - 23)"
    using assms(2) by (intro divide_strict_right_mono) simp_all
  also have "\<dots> = 2 powi ((E + 1) - (E - 23))" by (rule power_int_diff [symmetric]) simp
  also have "\<dots> = 2 powi 24" by (rule arg_cong [where f = "\<lambda>k. 2 powi k"]) simp
  finally have s: "\<bar>q / 2 powi (E - 23)\<bar> < 2 ^ 24" by simp
  have "\<bar>(of_int m :: rat)\<bar> < 2 ^ 24 + 1 / 2" using s assms(5) by linarith
  then have "\<bar>(of_int m :: rat)\<bar> < of_int (2 ^ 24 + 1)" by simp
  then have "\<bar>m\<bar> < 2 ^ 24 + 1" by (simp only: of_int_less_iff flip: of_int_abs)
  then have "\<bar>m\<bar> \<le> 2 ^ 24" by linarith
  then have "(of_int \<bar>m\<bar> :: rat) \<le> of_int (2 ^ 24)" by (simp only: of_int_le_iff)
  then have mb: "\<bar>(of_int m :: rat)\<bar> \<le> 2 powi 24" by simp
  have "\<bar>of_int m * (2::rat) powi (E - 23)\<bar> = \<bar>of_int m\<bar> * 2 powi (E - 23)"
    by (simp add: abs_mult)
  also have "\<dots> \<le> 2 powi 24 * 2 powi (E - 23)"
    using mb by (intro mult_right_mono) simp_all
  also have "\<dots> = 2 powi (24 + (E - 23))" by (rule power_int_add [symmetric]) simp
  also have "\<dots> = 2 powi (E + 1)" by (rule arg_cong [where f = "\<lambda>k. 2 powi k"]) simp
  also have "\<dots> \<le> 2 powi 127" using assms(4) by (intro power_int_increasing) simp_all
  also have "\<dots> < 2 ^ 128" by simp
  finally have "\<bar>of_int m * (2::rat) powi (E - 23)\<bar> < 2 ^ 128" .
  then show ?thesis unfolding f32_round_def Let_def e m by simp
qed

subsection \<open>Numbers that need no rounding\<close>

lemma dyadicI: "\<bar>m\<bar> \<le> B \<Longrightarrow> dyadic k B (of_int m / 2 ^ k)"
proof -
  assume m: "\<bar>m\<bar> \<le> B"
  have "\<bar>(of_int m :: rat)\<bar> = of_int \<bar>m\<bar>" by simp
  also have "\<dots> \<le> of_int B" using m by (simp only: of_int_le_iff)
  finally show ?thesis by (simp add: dyadic_def)
qed

lemma dyadicE:
  assumes "dyadic k B q"
  obtains m :: int where "\<bar>m\<bar> \<le> B" and "q = of_int m / 2 ^ k"
proof -
  define m where "m = \<lfloor>q * 2 ^ k\<rfloor>"
  have eq: "of_int m = q * 2 ^ k" using assms by (simp add: dyadic_def m_def)
  then have q: "q = of_int m / 2 ^ k" by (simp add: field_simps)
  have "(of_int \<bar>m\<bar> :: rat) = \<bar>q * 2 ^ k\<bar>" using eq by (simp flip: of_int_abs)
  also have "\<dots> \<le> of_int B" using assms by (simp add: dyadic_def)
  finally have "\<bar>m\<bar> \<le> B" by (simp only: of_int_le_iff)
  then show ?thesis using q that by blast
qed

lemma dyadic_add:
  assumes "dyadic k B p" and "dyadic k C q"
  shows "dyadic k (B + C) (p + q)"
proof -
  from assms(1) obtain m where m: "\<bar>m\<bar> \<le> B" "p = of_int m / 2 ^ k" by (rule dyadicE)
  from assms(2) obtain n where n: "\<bar>n\<bar> \<le> C" "q = of_int n / 2 ^ k" by (rule dyadicE)
  have "p + q = of_int (m + n) / 2 ^ k" by (simp add: m n add_divide_distrib)
  moreover have "\<bar>m + n\<bar> \<le> B + C" using m n by linarith
  ultimately show ?thesis by (simp only: dyadicI)
qed

lemma dyadic_diff:
  assumes "dyadic k B p" and "dyadic k C q"
  shows "dyadic k (B + C) (p - q)"
proof -
  from assms(1) obtain m where m: "\<bar>m\<bar> \<le> B" "p = of_int m / 2 ^ k" by (rule dyadicE)
  from assms(2) obtain n where n: "\<bar>n\<bar> \<le> C" "q = of_int n / 2 ^ k" by (rule dyadicE)
  have "p - q = of_int (m - n) / 2 ^ k" by (simp add: m n diff_divide_distrib)
  moreover have "\<bar>m - n\<bar> \<le> B + C" using m n by linarith
  ultimately show ?thesis by (simp only: dyadicI)
qed

lemma dyadic_mult:
  assumes "dyadic k B p" and "dyadic l C q"
  shows "dyadic (k + l) (B * C) (p * q)"
proof -
  from assms(1) obtain m where m: "\<bar>m\<bar> \<le> B" "p = of_int m / 2 ^ k" by (rule dyadicE)
  from assms(2) obtain n where n: "\<bar>n\<bar> \<le> C" "q = of_int n / 2 ^ l" by (rule dyadicE)
  have "p * q = of_int (m * n) / 2 ^ (k + l)" by (simp add: m n power_add)
  moreover have "\<bar>m * n\<bar> \<le> B * C"
    unfolding abs_mult using m n by (intro mult_mono) auto
  ultimately show ?thesis by (simp only: dyadicI)
qed

lemma dyadic_round:
  assumes "dyadic k B q" and "B < 2 ^ 24" and "k \<le> 149"
  shows "f32_round q = Finite q"
proof -
  from assms(1) obtain m where m: "\<bar>m\<bar> \<le> B" "q = of_int m / 2 ^ k" by (rule dyadicE)
  with assms(2) have "\<bar>m\<bar> < 2 ^ 24" by linarith
  then show ?thesis unfolding m(2) using assms(3) by (rule f32_round_exact)
qed

lemma half_grid_dyadic: "half_grid q \<Longrightarrow> dyadic 1 1024 q"
  by (auto simp: half_grid_def dyadic_def mult.commute abs_mult)

lemma init_edge_grid:
  assumes "on_grid p0" and "on_grid p1"
  shows "init_edge (vec2 p0) (vec2 p1) =
           \<lparr> edge_a = Finite (snd p0 - snd p1),
             edge_b = Finite (fst p1 - fst p0),
             edge_c = Finite (fst p0 * snd p1 - snd p0 * fst p1) \<rparr>"
proof -
  have g: "dyadic 1 1024 (fst p0)" "dyadic 1 1024 (snd p0)"
          "dyadic 1 1024 (fst p1)" "dyadic 1 1024 (snd p1)"
    using assms unfolding on_grid_def by (blast intro: half_grid_dyadic)+
  have a: "f32_round (snd p0 - snd p1) = Finite (snd p0 - snd p1)"
    using dyadic_diff [OF g(2) g(4)] by (rule dyadic_round) simp_all
  have b: "f32_round (fst p1 - fst p0) = Finite (fst p1 - fst p0)"
    using dyadic_diff [OF g(3) g(1)] by (rule dyadic_round) simp_all
  have m1: "f32_round (fst p0 * snd p1) = Finite (fst p0 * snd p1)"
    using dyadic_mult [OF g(1) g(4)] by (rule dyadic_round) simp_all
  have m2: "f32_round (snd p0 * fst p1) = Finite (snd p0 * fst p1)"
    using dyadic_mult [OF g(2) g(3)] by (rule dyadic_round) simp_all
  have c: "f32_round (fst p0 * snd p1 - snd p0 * fst p1) = Finite (fst p0 * snd p1 - snd p0 * fst p1)"
    using dyadic_diff [OF dyadic_mult [OF g(1) g(4)] dyadic_mult [OF g(2) g(3)]]
    by (rule dyadic_round) simp_all
  show ?thesis by (simp add: init_edge_def vec2_def a b m1 m2 c)
qed

lemma test_edge_grid:
  assumes "on_grid p0" and "on_grid p1" and "on_grid p"
  shows "test_edge (init_edge (vec2 p0) (vec2 p1)) (vec2 p) =
           Finite ((snd p0 - snd p1) * fst p + (fst p1 - fst p0) * snd p
                   + (fst p0 * snd p1 - snd p0 * fst p1))"
proof -
  have g: "dyadic 1 1024 (fst p0)" "dyadic 1 1024 (snd p0)"
          "dyadic 1 1024 (fst p1)" "dyadic 1 1024 (snd p1)"
          "dyadic 1 1024 (fst p)" "dyadic 1 1024 (snd p)"
    using assms unfolding on_grid_def by (blast intro: half_grid_dyadic)+
  note da = dyadic_mult [OF dyadic_diff [OF g(2) g(4)] g(5)]
  note db = dyadic_mult [OF dyadic_diff [OF g(3) g(1)] g(6)]
  note dc = dyadic_diff [OF dyadic_mult [OF g(1) g(4)] dyadic_mult [OF g(2) g(3)]]
  have ax: "f32_round ((snd p0 - snd p1) * fst p) = Finite ((snd p0 - snd p1) * fst p)"
    using da by (rule dyadic_round) simp_all
  have by': "f32_round ((fst p1 - fst p0) * snd p) = Finite ((fst p1 - fst p0) * snd p)"
    using db by (rule dyadic_round) simp_all
  have s1: "f32_round ((snd p0 - snd p1) * fst p + (fst p1 - fst p0) * snd p)
              = Finite ((snd p0 - snd p1) * fst p + (fst p1 - fst p0) * snd p)"
    using dyadic_add [OF da db] by (rule dyadic_round) simp_all
  have s2: "f32_round ((snd p0 - snd p1) * fst p + (fst p1 - fst p0) * snd p
                        + (fst p0 * snd p1 - snd p0 * fst p1))
              = Finite ((snd p0 - snd p1) * fst p + (fst p1 - fst p0) * snd p
                        + (fst p0 * snd p1 - snd p0 * fst p1))"
    using dyadic_add [OF dyadic_add [OF da db] dc] by (rule dyadic_round) simp_all
  show ?thesis
    unfolding init_edge_grid [OF assms(1,2)] test_edge_def
    by (simp add: vec2_def ax by' s1 s2)
qed

lemma triangle_area_grid:
  assumes "on_grid p0" and "on_grid p1" and "on_grid p2"
  shows "triangle_area (vec2 p0) (vec2 p1) (vec2 p2) = Finite (- shoelace p0 p1 p2)"
proof -
  have g: "dyadic 1 1024 (fst p0)" "dyadic 1 1024 (snd p0)"
          "dyadic 1 1024 (fst p1)" "dyadic 1 1024 (snd p1)"
          "dyadic 1 1024 (fst p2)" "dyadic 1 1024 (snd p2)"
    using assms unfolding on_grid_def by (blast intro: half_grid_dyadic)+
  note c0 = dyadic_diff [OF dyadic_mult [OF g(5) g(4)] dyadic_mult [OF g(6) g(3)]]
  note c1 = dyadic_diff [OF dyadic_mult [OF g(1) g(6)] dyadic_mult [OF g(2) g(5)]]
  note c2 = dyadic_diff [OF dyadic_mult [OF g(3) g(2)] dyadic_mult [OF g(4) g(1)]]
  have s1: "f32_round ((fst p2 * snd p1 - snd p2 * fst p1) + (fst p0 * snd p2 - snd p0 * fst p2))
            = Finite ((fst p2 * snd p1 - snd p2 * fst p1) + (fst p0 * snd p2 - snd p0 * fst p2))"
    using dyadic_add [OF c0 c1] by (rule dyadic_round) simp_all
  have s2: "f32_round ((fst p2 * snd p1 - snd p2 * fst p1) + (fst p0 * snd p2 - snd p0 * fst p2)
                       + (fst p1 * snd p0 - snd p1 * fst p0))
            = Finite ((fst p2 * snd p1 - snd p2 * fst p1) + (fst p0 * snd p2 - snd p0 * fst p2)
                       + (fst p1 * snd p0 - snd p1 * fst p0))"
    using dyadic_add [OF dyadic_add [OF c0 c1] c2] by (rule dyadic_round) simp_all
  have "(fst p2 * snd p1 - snd p2 * fst p1) + (fst p0 * snd p2 - snd p0 * fst p2)
          + (fst p1 * snd p0 - snd p1 * fst p0) = - shoelace p0 p1 p2"
    by (simp add: shoelace_def algebra_simps)
  with s2 show ?thesis
    unfolding triangle_area_def triangle_edges_def
        init_edge_grid [OF assms(3) assms(2)] init_edge_grid [OF assms(1) assms(3)]
        init_edge_grid [OF assms(2) assms(1)]
    by (simp add: s1)
qed

lemma main_v0_eq: "main_v0 = vec2 (511 / 2, 1 / 2)"
  by code_simp
lemma main_v1_eq: "main_v1 = vec2 (1 / 2, 1023 / 2)"
  by code_simp
lemma main_v2_eq: "main_v2 = vec2 (1023 / 2, 511 / 2)"
  by code_simp

lemma on_grid_main: "on_grid (511 / 2, 1 / 2)" "on_grid (1 / 2, 1023 / 2)" "on_grid (1023 / 2, 511 / 2)"
  by (simp_all add: on_grid_def half_grid_def)

lemma main_area_triangle_area: "main_area = triangle_area main_v0 main_v1 main_v2"
  by (simp add: main_area_def triangle_area_def triangle_edges_def
      main_edge0_def main_edge1_def main_edge2_def)

lemma main_area_eq: "main_area = Finite 195841"
proof -
  have "- shoelace (511 / 2, 1 / 2) (1 / 2, 1023 / 2) (1023 / 2, 511 / 2) = 195841"
    by (simp add: shoelace_def)
  then show ?thesis
    using triangle_area_grid [OF on_grid_main]
    by (simp add: main_area_triangle_area main_v0_eq main_v1_eq main_v2_eq)
qed

subsection \<open>Edge values at the pixel centres\<close>

lemma f32_of_nat_exact: "n < 2 ^ 24 \<Longrightarrow> f32_of_nat n = Finite (of_nat n)"
  using f32_round_exact [of "int n" 0] by (simp add: f32_of_nat_def)

lemma pixel_centre_eq:
  assumes "x < 2 ^ 23" and "y < 2 ^ 23"
  shows "pixel_centre x y = vec2 (of_nat x + 1 / 2, of_nat y + 1 / 2)"
proof -
  have h: "fadd (f32_of_nat n) (Finite (1 / 2)) = Finite (of_nat n + 1 / 2)" if "n < 2 ^ 23" for n
  proof -
    have a: "f32_of_nat n = Finite (of_nat n)" using that by (intro f32_of_nat_exact) simp
    have e: "(of_int (2 * int n + 1) / 2 ^ 1 :: rat) = of_nat n + 1 / 2"
      by (simp add: field_simps)
    have "f32_round (of_int (2 * int n + 1) / 2 ^ 1) = Finite (of_int (2 * int n + 1) / 2 ^ 1)"
      using that by (intro f32_round_exact) simp_all
    then have "f32_round (of_nat n + 1 / 2) = Finite (of_nat n + 1 / 2)"
      unfolding e .
    with a show ?thesis by simp
  qed
  show ?thesis unfolding pixel_centre_def vec2_def h [OF assms(1)] h [OF assms(2)] by simp
qed

lemma on_grid_centre:
  assumes "x < WIDTH" and "y < HEIGHT"
  shows "on_grid (of_nat x + 1 / 2, of_nat y + 1 / 2)"
proof -
  have "half_grid (of_nat n + 1 / 2)" if "n < 512" for n :: nat
  proof -
    have "2 * (of_nat n + 1 / 2 :: rat) = of_int (2 * int n + 1)" by simp
    then have "of_int \<lfloor>2 * (of_nat n + 1 / 2 :: rat)\<rfloor> = 2 * (of_nat n + 1 / 2 :: rat)"
      by (simp only: floor_of_int)
    moreover have "\<bar>of_nat n + 1 / 2 :: rat\<bar> \<le> 512"
    proof -
      have "(of_nat n :: rat) \<le> of_nat 511" using that by (simp only: of_nat_le_iff)
      then show ?thesis by simp
    qed
    ultimately show ?thesis by (simp only: half_grid_def simp_thms)
  qed
  then show ?thesis using assms by (simp add: on_grid_def WIDTH_def HEIGHT_def)
qed

lemma centre_in_canvas:
  assumes "x < WIDTH" and "y < HEIGHT"
  shows "pixel_centre x y = vec2 (of_nat x + 1 / 2, of_nat y + 1 / 2)"
  using assms by (intro pixel_centre_eq) (simp_all add: WIDTH_def HEIGHT_def)

lemma main_d0:
  assumes "x < WIDTH" and "y < HEIGHT"
  shows "test_edge main_edge0 (pixel_centre x y) = Finite (of_int (261121 - 256 * int x - 511 * int y))"
  unfolding main_edge0_def main_v1_eq main_v2_eq centre_in_canvas [OF assms]
    test_edge_grid [OF on_grid_main(3) on_grid_main(2) on_grid_centre [OF assms]]
  by (simp add: algebra_simps)

lemma main_d1:
  assumes "x < WIDTH" and "y < HEIGHT"
  shows "test_edge main_edge1 (pixel_centre x y) = Finite (of_int (65025 - 255 * int x + 256 * int y))"
  unfolding main_edge1_def main_v0_eq main_v2_eq centre_in_canvas [OF assms]
    test_edge_grid [OF on_grid_main(1) on_grid_main(3) on_grid_centre [OF assms]]
  by (simp add: algebra_simps)

lemma main_d2:
  assumes "x < WIDTH" and "y < HEIGHT"
  shows "test_edge main_edge2 (pixel_centre x y) = Finite (of_int (511 * int x + 255 * int y - 130305))"
  unfolding main_edge2_def main_v0_eq main_v1_eq centre_in_canvas [OF assms]
    test_edge_grid [OF on_grid_main(2) on_grid_main(1) on_grid_centre [OF assms]]
  by (simp add: algebra_simps)

subsection \<open>Weights and channel values\<close>

lemma weight_bounds:
  fixes n :: int
  assumes "1 \<le> n" and "n \<le> 195839"
  shows "\<exists>i. fdiv (Finite (of_int n)) main_area = Finite i \<and>
             \<bar>i - of_int n / 195841\<bar> \<le> 1 / 2 ^ 25 \<and> 0 < i \<and> i \<le> 195839 / 195841 + 1 / 2 ^ 25"
proof -
  define q :: rat where "q = of_int n / 195841"
  have lo: "1 / 195841 \<le> q"
  proof -
    have "(of_int 1 :: rat) \<le> of_int n" using assms(1) by (simp only: of_int_le_iff)
    then show ?thesis by (simp add: q_def divide_right_mono)
  qed
  have hi: "q \<le> 195839 / 195841"
  proof -
    have "(of_int n :: rat) \<le> of_int 195839" using assms(2) by (simp only: of_int_le_iff)
    then show ?thesis by (simp add: q_def divide_right_mono)
  qed
  have "\<bar>q\<bar> < 2 powi 0" using lo hi by simp
  then have "\<exists>r. f32_round q = Finite r \<and> \<bar>r - q\<bar> \<le> 2 powi (0 - 25)"
    by (rule f32_round_error) simp_all
  then obtain r where r: "f32_round q = Finite r" "\<bar>r - q\<bar> \<le> 2 powi (0 - 25)"
    by blast
  have e: "(2::rat) powi (0 - 25) = 1 / 2 ^ 25" by (simp add: power_int_minus)
  have f1: "fdiv (Finite (of_int n)) main_area = Finite r"
    using r(1) by (simp add: main_area_eq q_def)
  have f2: "\<bar>r - of_int n / 195841\<bar> \<le> 1 / 2 ^ 25" using r(2) unfolding e q_def .
  have f3: "0 < r"
  proof -
    have "q - 1 / 2 ^ 25 \<le> r" using r(2) unfolding e by linarith
    moreover have "(0::rat) < 1 / 195841 - 1 / 2 ^ 25" by simp
    ultimately show ?thesis using lo by linarith
  qed
  have f4: "r \<le> 195839 / 195841 + 1 / 2 ^ 25"
  proof -
    have "r \<le> q + 1 / 2 ^ 25" using r(2) unfolding e by linarith
    then show ?thesis using hi by linarith
  qed
  show ?thesis by (intro exI [of _ r] conjI f1 f2 f3 f4)
qed

lemma channel_bounds:
  fixes i :: rat
  assumes "0 < i" and "i \<le> 195839 / 195841 + 1 / 2 ^ 25"
  shows "\<exists>p. fmul (Finite i) (Finite 255) = Finite p \<and> 0 \<le> p \<and> p < 255"
proof -
  have "i * 255 < 1 * 255"
  proof -
    have "i < 1" using assms(2) by simp
    then show ?thesis by (intro mult_strict_right_mono) simp_all
  qed
  moreover have "0 \<le> i * 255" using assms(1) by simp
  ultimately have "\<bar>i * 255\<bar> < 2 powi 8" by simp
  then have "\<exists>p. f32_round (i * 255) = Finite p \<and> \<bar>p - i * 255\<bar> \<le> 2 powi (8 - 25)"
    by (rule f32_round_error) simp_all
  then obtain p where p: "f32_round (i * 255) = Finite p" "\<bar>p - i * 255\<bar> \<le> 2 powi (8 - 25)"
    by blast
  have e: "(2::rat) powi (8 - 25) = 1 / 2 ^ 17" by (simp add: power_int_minus)
  have g1: "0 \<le> p"
  proof (rule f32_round_nonneg)
    show "0 \<le> i * 255" using assms(1) by simp
    show "f32_round (i * 255) = Finite p" by (rule p(1))
  qed
  have g2: "p < 255"
  proof -
    have "p \<le> i * 255 + 1 / 2 ^ 17" using p(2) unfolding e by linarith
    moreover have "i * 255 \<le> (195839 / 195841 + 1 / 2 ^ 25) * 255"
      using assms(2) by (intro mult_right_mono) simp_all
    moreover have "(195839 / 195841 + 1 / 2 ^ 25) * 255 + 1 / 2 ^ 17 < (255::rat)" by simp
    ultimately show ?thesis by linarith
  qed
  have g0: "fmul (Finite i) (Finite 255) = Finite p" using p(1) by simp
  show ?thesis by (intro exI [of _ p] conjI g0 g1 g2)
qed

lemma f32_to_u8_trunc:
  assumes "0 \<le> p" and "p < 255"
  shows "f32_to_u8 (Finite p) = Some (word_of_int \<lfloor>p\<rfloor>) \<and> 0 \<le> \<lfloor>p\<rfloor> \<and> \<lfloor>p\<rfloor> \<le> 254
         \<and> trunc_zero p = \<lfloor>p\<rfloor>"
proof -
  have "0 \<le> \<lfloor>p\<rfloor>" using assms(1) by simp
  moreover have "\<lfloor>p\<rfloor> \<le> 254" using assms(2) by (simp add: floor_le_iff)
  ultimately show ?thesis using assms(1) by (simp add: f32_to_u8_def trunc_zero_def)
qed

lemma channel_ok:
  fixes n :: int
  assumes "1 \<le> n" and "n \<le> 195839"
  shows "\<exists>i p. fdiv (Finite (of_int n)) main_area = Finite i \<and> 0 < i \<and> i < 1 \<and>
               \<bar>i - of_int n / 195841\<bar> \<le> 1 / 2 ^ 25 \<and>
               fmul (Finite i) (Finite 255) = Finite p \<and> 0 \<le> p \<and> p < 255 \<and>
               f32_to_u8 (Finite p) = Some (word_of_int (trunc_zero p)) \<and>
               0 \<le> trunc_zero p \<and> trunc_zero p \<le> 254"
proof -
  from weight_bounds [OF assms] obtain i where
    i: "fdiv (Finite (of_int n)) main_area = Finite i" "\<bar>i - of_int n / 195841\<bar> \<le> 1 / 2 ^ 25"
       "0 < i" "i \<le> 195839 / 195841 + 1 / 2 ^ 25" by blast
  from channel_bounds [OF i(3,4)] obtain p where
    p: "fmul (Finite i) (Finite 255) = Finite p" "0 \<le> p" "p < 255" by blast
  have i1: "i < 1" using i(4) by simp
  note t = f32_to_u8_trunc [OF p(2,3)]
  have t1: "f32_to_u8 (Finite p) = Some (word_of_int (trunc_zero p))" using t by simp
  have t2: "0 \<le> trunc_zero p" using t by simp
  have t3: "trunc_zero p \<le> 254" using t by simp
  show ?thesis
    by (intro exI [of _ i] exI [of _ p] conjI i(1) i(3) i1 i(2) p(1) p(2) p(3) t1 t2 t3)
qed

lemma inside_finite:
  "inside (Finite (of_int a)) (Finite (of_int b)) (Finite (of_int c)) = Some (0 < a \<and> 0 < b \<and> 0 < c)"
  by (simp add: inside_def split: bool.splits)

lemma pixel_index_eq:
  assumes "x < WIDTH" and "y < HEIGHT" and "ch < 3"
  shows "pixel_index x y ch = (y * WIDTH + x) * 3 + ch"
    and "pixel_index x y ch < WIDTH * HEIGHT * 3"
proof -
  have "y * WIDTH + x < HEIGHT * WIDTH"
  proof -
    have "y * WIDTH + x < y * WIDTH + WIDTH" using assms(1) by simp
    also have "\<dots> = (y + 1) * WIDTH" by simp
    also have "\<dots> \<le> HEIGHT * WIDTH" using assms(2) by (intro mult_le_mono1) simp
    finally show ?thesis .
  qed
  then have b: "(y * WIDTH + x) * 3 + ch < WIDTH * HEIGHT * 3" using assms(3) by (simp add: mult.commute)
  have "WIDTH * HEIGHT * 3 < (2::nat) ^ 32" by (simp add: WIDTH_def HEIGHT_def)
  with b have "(y * WIDTH + x) * 3 + ch < 2 ^ 32" by linarith
  then show "pixel_index x y ch = (y * WIDTH + x) * 3 + ch" by (simp add: pixel_index_def)
  with b show "pixel_index x y ch < WIDTH * HEIGHT * 3" by simp
qed

subsection \<open>One pixel\<close>

lemma channel_some:
  fixes n :: int
  assumes "1 \<le> n" and "n \<le> 195839"
  obtains c where "f32_to_u8 (fmul (fdiv (Finite (of_int n)) main_area) (Finite 255)) = Some c"
  using channel_ok [OF assms] by metis

lemma inside_range:
  fixes a b c :: int
  assumes "a + b + c = 195841" and "0 < a" and "0 < b" and "0 < c"
  shows "1 \<le> a \<and> a \<le> 195839 \<and> 1 \<le> b \<and> b \<le> 195839 \<and> 1 \<le> c \<and> c \<le> 195839"
  using assms by linarith

lemma inside_outside:
  assumes "x < WIDTH" and "y < HEIGHT"
    and "\<not> (0 < 261121 - 256 * int x - 511 * int y \<and> 0 < 65025 - 255 * int x + 256 * int y
            \<and> 0 < 511 * int x + 255 * int y - 130305)"
  shows "inside (test_edge main_edge0 (pixel_centre x y)) (test_edge main_edge1 (pixel_centre x y))
               (test_edge main_edge2 (pixel_centre x y)) = Some False"
proof -
  have c: "(0 < 261121 - 256 * int x - 511 * int y \<and> 0 < 65025 - 255 * int x + 256 * int y
            \<and> 0 < 511 * int x + 255 * int y - 130305) = False"
    using assms(3) by blast
  show ?thesis
    unfolding main_d0 [OF assms(1,2)] main_d1 [OF assms(1,2)] main_d2 [OF assms(1,2)]
      inside_finite c ..
qed

lemma inside_inside:
  assumes "x < WIDTH" and "y < HEIGHT"
    and "0 < 261121 - 256 * int x - 511 * int y \<and> 0 < 65025 - 255 * int x + 256 * int y
            \<and> 0 < 511 * int x + 255 * int y - 130305"
  shows "inside (test_edge main_edge0 (pixel_centre x y)) (test_edge main_edge1 (pixel_centre x y))
               (test_edge main_edge2 (pixel_centre x y)) = Some True"
proof -
  have c: "(0 < 261121 - 256 * int x - 511 * int y \<and> 0 < 65025 - 255 * int x + 256 * int y
            \<and> 0 < 511 * int x + 255 * int y - 130305) = True"
    using assms(3) by blast
  show ?thesis
    unfolding main_d0 [OF assms(1,2)] main_d1 [OF assms(1,2)] main_d2 [OF assms(1,2)]
      inside_finite c ..
qed

lemma pixel_colour_outside:
  assumes "x < WIDTH" and "y < HEIGHT"
    and "\<not> (0 < 261121 - 256 * int x - 511 * int y \<and> 0 < 65025 - 255 * int x + 256 * int y
            \<and> 0 < 511 * int x + 255 * int y - 130305)"
  shows "pixel_colour x y = None"
  unfolding pixel_colour_def Let_def inside_outside [OF assms] by simp

lemma pixel_colour_inside:
  assumes "x < WIDTH" and "y < HEIGHT"
    and "0 < 261121 - 256 * int x - 511 * int y" and "0 < 65025 - 255 * int x + 256 * int y"
    and "0 < 511 * int x + 255 * int y - 130305"
  shows "\<exists>r g b.
           f32_to_u8 (fmul (fdiv (test_edge main_edge0 (pixel_centre x y)) main_area) (Finite 255)) = Some r \<and>
           f32_to_u8 (fmul (fdiv (test_edge main_edge1 (pixel_centre x y)) main_area) (Finite 255)) = Some g \<and>
           f32_to_u8 (fmul (fdiv (test_edge main_edge2 (pixel_centre x y)) main_area) (Finite 255)) = Some b \<and>
           pixel_colour x y = Some (r, g, b)"
proof -
  define n0 where "n0 = 261121 - 256 * int x - 511 * int y"
  define n1 where "n1 = 65025 - 255 * int x + 256 * int y"
  define n2 where "n2 = 511 * int x + 255 * int y - 130305"
  have s: "n0 + n1 + n2 = 195841" by (simp add: n0_def n1_def n2_def)
  have p: "0 < n0" "0 < n1" "0 < n2" using assms(3-5) by (simp_all add: n0_def n1_def n2_def)
  note rg = inside_range [OF s p]
  from rg obtain r where r: "f32_to_u8 (fmul (fdiv (Finite (of_int n0)) main_area) (Finite 255)) = Some r"
    using channel_some [of n0] by blast
  from rg obtain g where g: "f32_to_u8 (fmul (fdiv (Finite (of_int n1)) main_area) (Finite 255)) = Some g"
    using channel_some [of n1] by blast
  from rg obtain b where b: "f32_to_u8 (fmul (fdiv (Finite (of_int n2)) main_area) (Finite 255)) = Some b"
    using channel_some [of n2] by blast
  have d: "test_edge main_edge0 (pixel_centre x y) = Finite (of_int n0)"
          "test_edge main_edge1 (pixel_centre x y) = Finite (of_int n1)"
          "test_edge main_edge2 (pixel_centre x y) = Finite (of_int n2)"
    unfolding n0_def n1_def n2_def
    by (rule main_d0 [OF assms(1,2)] main_d1 [OF assms(1,2)] main_d2 [OF assms(1,2)])+
  have ins: "inside (test_edge main_edge0 (pixel_centre x y)) (test_edge main_edge1 (pixel_centre x y))
               (test_edge main_edge2 (pixel_centre x y)) = Some True"
    using assms by (intro inside_inside) simp_all
  have "pixel_colour x y = Some (r, g, b)"
    unfolding pixel_colour_def Let_def ins unfolding d r g b by simp
  then show ?thesis unfolding d using r g b by blast
qed

lemma shade_pixel_paint:
  assumes "x < WIDTH" and "y < HEIGHT" and "length pixels = WIDTH * HEIGHT * 3"
  shows "shade_pixel main_edge0 main_edge1 main_edge2 main_area x y pixels = Some (paint x y pixels)"
proof (cases "0 < 261121 - 256 * int x - 511 * int y \<and> 0 < 65025 - 255 * int x + 256 * int y
            \<and> 0 < 511 * int x + 255 * int y - 130305")
  case False
  have "pixel_colour x y = None" using assms(1,2) False by (rule pixel_colour_outside)
  then have "paint x y pixels = pixels" by (simp add: paint_def)
  moreover have "shade_pixel main_edge0 main_edge1 main_edge2 main_area x y pixels = Some pixels"
    unfolding shade_pixel_def Let_def inside_outside [OF assms(1,2) False] by simp
  ultimately show ?thesis by simp
next
  case True
  then obtain r g b where
    c: "f32_to_u8 (fmul (fdiv (test_edge main_edge0 (pixel_centre x y)) main_area) (Finite 255)) = Some r"
       "f32_to_u8 (fmul (fdiv (test_edge main_edge1 (pixel_centre x y)) main_area) (Finite 255)) = Some g"
       "f32_to_u8 (fmul (fdiv (test_edge main_edge2 (pixel_centre x y)) main_area) (Finite 255)) = Some b"
       "pixel_colour x y = Some (r, g, b)"
    using pixel_colour_inside [OF assms(1,2)] by blast
  have ins: "inside (test_edge main_edge0 (pixel_centre x y)) (test_edge main_edge1 (pixel_centre x y))
               (test_edge main_edge2 (pixel_centre x y)) = Some True"
    using assms(1,2) True by (rule inside_inside)
  have i: "pixel_index x y 0 < length pixels" "pixel_index x y 1 < length pixels"
          "pixel_index x y 2 < length pixels"
    using pixel_index_eq(2) [OF assms(1,2)] assms(3) by simp_all
  have "shade_pixel main_edge0 main_edge1 main_edge2 main_area x y pixels =
          Some (pixels[pixel_index x y 0 := r, pixel_index x y 1 := g, pixel_index x y 2 := b])"
    unfolding shade_pixel_def Let_def ins using c(1-3) i by (simp add: store_def)
  then show ?thesis by (simp add: paint_def c(4))
qed

lemma length_paint: "length (paint x y pixels) = length pixels"
  by (simp add: paint_def split: option.splits prod.splits)

subsection \<open>The pixel loops\<close>

lemma pixel_index_inj:
  assumes "x < WIDTH" "y < HEIGHT" "c < 3" "x' < WIDTH" "y' < HEIGHT" "c' < 3"
    and "pixel_index x y c = pixel_index x' y' c'"
  shows "x = x' \<and> y = y' \<and> c = c'"
proof -
  define a where "a = y * WIDTH + x"
  define a' where "a' = y' * WIDTH + x'"
  have e: "a * 3 + c = a' * 3 + c'"
    using assms(7) pixel_index_eq(1) [OF assms(1-3)] pixel_index_eq(1) [OF assms(4-6)]
    by (simp add: a_def a'_def)
  have c: "c = c'" using e assms(3,6) by presburger
  have f: "a = a'" using e c by simp
  have "a mod WIDTH = x" "a' mod WIDTH = x'" using assms(1,4) by (simp_all add: a_def a'_def)
  then have x: "x = x'" using f by simp
  have "a div WIDTH = y" "a' div WIDTH = y'" using assms(1,4) by (simp_all add: a_def a'_def)
  then have y: "y = y'" using f by simp
  from x y c show ?thesis by simp
qed

lemma paint_nth_other:
  assumes "x < WIDTH" "y < HEIGHT" "c < 3" "x' < WIDTH" "y' < HEIGHT"
    and "(x', y') \<noteq> (x, y)"
  shows "paint x' y' pixels ! pixel_index x y c = pixels ! pixel_index x y c"
proof -
  have "pixel_index x y c \<noteq> pixel_index x' y' c'" if "c' < 3" for c'
    using pixel_index_inj [OF assms(1-3) assms(4,5) that] assms(6) by auto
  then have "pixel_index x y c \<noteq> pixel_index x' y' 0" "pixel_index x y c \<noteq> pixel_index x' y' 1"
    "pixel_index x y c \<noteq> pixel_index x' y' 2" by simp_all
  then show ?thesis by (simp add: paint_def split: option.splits prod.splits)
qed

lemma paint_nth_same:
  assumes "x < WIDTH" "y < HEIGHT" "c < 3" "length pixels = WIDTH * HEIGHT * 3"
  shows "paint x y pixels ! pixel_index x y c =
           (case pixel_colour x y of None \<Rightarrow> pixels ! pixel_index x y c
            | Some (r, g, b) \<Rightarrow> [r, g, b] ! c)"
proof (cases "pixel_colour x y")
  case None
  then show ?thesis by (simp add: paint_def)
next
  case (Some rgb)
  obtain r g b where rgb: "rgb = (r, g, b)" by (cases rgb) auto
  have l: "pixel_index x y 0 < length pixels" "pixel_index x y 1 < length pixels"
          "pixel_index x y 2 < length pixels"
    using pixel_index_eq(2) [OF assms(1,2)] assms(4) by simp_all
  have d: "pixel_index x y 0 \<noteq> pixel_index x y 1" "pixel_index x y 0 \<noteq> pixel_index x y 2"
          "pixel_index x y 1 \<noteq> pixel_index x y 2"
    using pixel_index_eq(1) [OF assms(1,2)] by simp_all
  have "c = 0 \<or> c = 1 \<or> c = 2" using assms(3) by linarith
  then show ?thesis using l d by (auto simp: paint_def Some rgb)
qed

lemma fold_paint_length: "length (fold (\<lambda>x'. paint x' y') xs pixels) = length pixels"
  by (induction xs arbitrary: pixels) (simp_all add: length_paint)

lemma fold_paint_nth:
  assumes "x < WIDTH" "y < HEIGHT" "c < 3" "y' < HEIGHT" "\<forall>x' \<in> set xs. x' < WIDTH"
    and "length pixels = WIDTH * HEIGHT * 3"
  shows "fold (\<lambda>x'. paint x' y') xs pixels ! pixel_index x y c =
           (if y = y' \<and> x \<in> set xs
            then (case pixel_colour x y of None \<Rightarrow> pixels ! pixel_index x y c
                  | Some (r, g, b) \<Rightarrow> [r, g, b] ! c)
            else pixels ! pixel_index x y c)"
  using assms(5,6)
proof (induction xs arbitrary: pixels)
  case Nil
  then show ?case by simp
next
  case (Cons a xs)
  have a: "a < WIDTH" using Cons.prems(1) by simp
  have len: "length (paint a y' pixels) = WIDTH * HEIGHT * 3"
    using Cons.prems(2) by (simp add: length_paint)
  have ih: "fold (\<lambda>x'. paint x' y') xs (paint a y' pixels) ! pixel_index x y c =
           (if y = y' \<and> x \<in> set xs
            then (case pixel_colour x y of None \<Rightarrow> paint a y' pixels ! pixel_index x y c
                  | Some (r, g, b) \<Rightarrow> [r, g, b] ! c)
            else paint a y' pixels ! pixel_index x y c)"
    using Cons.prems(1) len by (intro Cons.IH) simp_all
  show ?case
  proof (cases "(a, y') = (x, y)")
    case True
    then have e: "a = x" "y' = y" by simp_all
    have s: "paint x y pixels ! pixel_index x y c =
           (case pixel_colour x y of None \<Rightarrow> pixels ! pixel_index x y c
            | Some (r, g, b) \<Rightarrow> [r, g, b] ! c)"
      using assms(1-3) Cons.prems(2) by (rule paint_nth_same)
    show ?thesis using ih s unfolding e by (simp split: option.splits prod.splits)
  next
    case False
    have s: "paint a y' pixels ! pixel_index x y c = pixels ! pixel_index x y c"
      using assms(1-3) a assms(4) False by (rule paint_nth_other)
    have "\<not> (y = y' \<and> x = a)" using False by auto
    then show ?thesis using ih unfolding s by auto
  qed
qed

lemma row_loop_fold:
  assumes "y < HEIGHT" and "length pixels = WIDTH * HEIGHT * 3"
  shows "row_loop main_edge0 main_edge1 main_edge2 main_area y x pixels =
           Some (fold (\<lambda>x'. paint x' y) [x..<WIDTH] pixels)"
  using assms(2)
proof (induction "WIDTH - x" arbitrary: x pixels)
  case 0
  then have "\<not> x < WIDTH" by simp
  then show ?case by (subst row_loop.simps) simp
next
  case (Suc n)
  then have x: "x < WIDTH" by simp
  have n: "n = WIDTH - (x + 1)" using Suc.hyps(2) by simp
  have len: "length (paint x y pixels) = WIDTH * HEIGHT * 3"
    using Suc.prems by (simp add: length_paint)
  have ih: "row_loop main_edge0 main_edge1 main_edge2 main_area y (x + 1) (paint x y pixels) =
           Some (fold (\<lambda>x'. paint x' y) [x + 1..<WIDTH] (paint x y pixels))"
    using n len by (rule Suc.hyps(1))
  have u: "[x..<WIDTH] = x # [x + 1..<WIDTH]" using x by (simp add: upt_conv_Cons)
  show ?case
    by (subst row_loop.simps)
      (use ih in \<open>simp add: x shade_pixel_paint [OF x assms(1) Suc.prems] u del: upt_Suc\<close>)
qed

lemma paint_row_length: "length (paint_row y pixels) = length pixels"
  by (simp add: paint_row_def fold_paint_length)

lemma paint_row_nth:
  assumes "x < WIDTH" "y < HEIGHT" "c < 3" "y' < HEIGHT" "length pixels = WIDTH * HEIGHT * 3"
  shows "paint_row y' pixels ! pixel_index x y c =
           (if y = y'
            then (case pixel_colour x y of None \<Rightarrow> pixels ! pixel_index x y c
                  | Some (r, g, b) \<Rightarrow> [r, g, b] ! c)
            else pixels ! pixel_index x y c)"
  unfolding paint_row_def
  using fold_paint_nth [OF assms(1-4) _ assms(5), of "[0..<WIDTH]"] assms(1) by simp

lemma fold_rows_length: "length (fold paint_row ys pixels) = length pixels"
  by (induction ys arbitrary: pixels) (simp_all add: paint_row_length)

lemma fold_rows_nth:
  assumes "x < WIDTH" "y < HEIGHT" "c < 3" "\<forall>y' \<in> set ys. y' < HEIGHT"
    and "length pixels = WIDTH * HEIGHT * 3"
  shows "fold paint_row ys pixels ! pixel_index x y c =
           (if y \<in> set ys
            then (case pixel_colour x y of None \<Rightarrow> pixels ! pixel_index x y c
                  | Some (r, g, b) \<Rightarrow> [r, g, b] ! c)
            else pixels ! pixel_index x y c)"
  using assms(4,5)
proof (induction ys arbitrary: pixels)
  case Nil
  then show ?case by simp
next
  case (Cons a ys)
  have a: "a < HEIGHT" using Cons.prems(1) by simp
  have len: "length (paint_row a pixels) = WIDTH * HEIGHT * 3"
    using Cons.prems(2) by (simp add: paint_row_length)
  have ih: "fold paint_row ys (paint_row a pixels) ! pixel_index x y c =
           (if y \<in> set ys
            then (case pixel_colour x y of None \<Rightarrow> paint_row a pixels ! pixel_index x y c
                  | Some (r, g, b) \<Rightarrow> [r, g, b] ! c)
            else paint_row a pixels ! pixel_index x y c)"
    using Cons.prems(1) len by (intro Cons.IH) simp_all
  note s = paint_row_nth [OF assms(1-3) a Cons.prems(2)]
  show ?case using ih unfolding s by (auto split: option.splits prod.splits)
qed

lemma raster_loop_fold:
  assumes "length pixels = WIDTH * HEIGHT * 3"
  shows "raster_loop main_edge0 main_edge1 main_edge2 main_area y pixels =
           Some (fold paint_row [y..<HEIGHT] pixels)"
  using assms
proof (induction "HEIGHT - y" arbitrary: y pixels)
  case 0
  then have "\<not> y < HEIGHT" by simp
  then show ?case by (subst raster_loop.simps) simp
next
  case (Suc n)
  then have y: "y < HEIGHT" by simp
  have n: "n = HEIGHT - (y + 1)" using Suc.hyps(2) by simp
  have len: "length (paint_row y pixels) = WIDTH * HEIGHT * 3"
    using Suc.prems by (simp add: paint_row_length)
  have ih: "raster_loop main_edge0 main_edge1 main_edge2 main_area (y + 1) (paint_row y pixels) =
           Some (fold paint_row [y + 1..<HEIGHT] (paint_row y pixels))"
    using n len by (rule Suc.hyps(1))
  have u: "[y..<HEIGHT] = y # [y + 1..<HEIGHT]" using y by (simp add: upt_conv_Cons)
  have r: "row_loop main_edge0 main_edge1 main_edge2 main_area y 0 pixels = Some (paint_row y pixels)"
    unfolding paint_row_def using y Suc.prems by (rule row_loop_fold)
  show ?case
    by (subst raster_loop.simps) (use ih in \<open>simp add: y r u del: upt_Suc\<close>)
qed

lemma rasterize_result:
  assumes "length pixels = WIDTH * HEIGHT * 3"
  shows "\<exists>pixels'. rasterize pixels = Some pixels' \<and> length pixels' = WIDTH * HEIGHT * 3 \<and>
           (\<forall>x y c. x < WIDTH \<longrightarrow> y < HEIGHT \<longrightarrow> c < 3 \<longrightarrow>
              pixels' ! pixel_index x y c =
                (case pixel_colour x y of None \<Rightarrow> pixels ! pixel_index x y c
                 | Some (r, g, b) \<Rightarrow> [r, g, b] ! c))"
proof -
  have r: "rasterize pixels = Some (fold paint_row [0..<HEIGHT] pixels)"
    unfolding rasterize_def using assms by (rule raster_loop_fold)
  have l: "length (fold paint_row [0..<HEIGHT] pixels) = WIDTH * HEIGHT * 3"
    using assms by (simp add: fold_rows_length)
  have n: "fold paint_row [0..<HEIGHT] pixels ! pixel_index x y c =
                (case pixel_colour x y of None \<Rightarrow> pixels ! pixel_index x y c
                 | Some (r, g, b) \<Rightarrow> [r, g, b] ! c)"
    if "x < WIDTH" "y < HEIGHT" "c < 3" for x y c
    using fold_rows_nth [OF that _ assms, of "[0..<HEIGHT]"] that(2) by simp
  show ?thesis using r l n by blast
qed

subsection \<open>Facts about single pixels\<close>

lemma centre_values:
  assumes "x < WIDTH" and "y < HEIGHT"
    and "test_edge main_edge0 (pixel_centre x y) = Finite d0"
    and "test_edge main_edge1 (pixel_centre x y) = Finite d1"
    and "test_edge main_edge2 (pixel_centre x y) = Finite d2"
  shows "d0 = of_int (261121 - 256 * int x - 511 * int y)"
    and "d1 = of_int (65025 - 255 * int x + 256 * int y)"
    and "d2 = of_int (511 * int x + 255 * int y - 130305)"
    and "d0 + d1 + d2 = 195841"
proof -
  show 0: "d0 = of_int (261121 - 256 * int x - 511 * int y)"
    using assms(3) unfolding main_d0 [OF assms(1,2)] by simp
  show 1: "d1 = of_int (65025 - 255 * int x + 256 * int y)"
    using assms(4) unfolding main_d1 [OF assms(1,2)] by simp
  show 2: "d2 = of_int (511 * int x + 255 * int y - 130305)"
    using assms(5) unfolding main_d2 [OF assms(1,2)] by simp
  show "d0 + d1 + d2 = 195841" unfolding 0 1 2 by simp
qed

lemma centre_finite:
  assumes "x < WIDTH" and "y < HEIGHT"
  shows "\<exists>d0 d1 d2. test_edge main_edge0 (pixel_centre x y) = Finite d0 \<and>
           test_edge main_edge1 (pixel_centre x y) = Finite d1 \<and>
           test_edge main_edge2 (pixel_centre x y) = Finite d2"
  using main_d0 [OF assms] main_d1 [OF assms] main_d2 [OF assms] by blast

lemma positive_int_range:
  fixes a b c :: int
  assumes "(of_int a :: rat) + of_int b + of_int c = 195841"
    and "0 < (of_int a :: rat)" "0 < (of_int b :: rat)" "0 < (of_int c :: rat)"
  shows "1 \<le> a \<and> a \<le> 195839" "1 \<le> b \<and> b \<le> 195839" "1 \<le> c \<and> c \<le> 195839"
proof -
  have "(of_int (a + b + c) :: rat) = of_int 195841" using assms(1) by simp
  then have s: "a + b + c = 195841" by (simp only: of_int_eq_iff)
  have p: "0 < a" "0 < b" "0 < c" using assms(2-4) by simp_all
  show "1 \<le> a \<and> a \<le> 195839" "1 \<le> b \<and> b \<le> 195839" "1 \<le> c \<and> c \<le> 195839"
    using s p by linarith+
qed

lemma centre_ranges:
  assumes "x < WIDTH" and "y < HEIGHT"
    and "test_edge main_edge0 (pixel_centre x y) = Finite d0"
    and "test_edge main_edge1 (pixel_centre x y) = Finite d1"
    and "test_edge main_edge2 (pixel_centre x y) = Finite d2"
    and "0 < d0" and "0 < d1" and "0 < d2"
  obtains n0 n1 n2 :: int where
    "d0 = of_int n0" "d1 = of_int n1" "d2 = of_int n2"
    "1 \<le> n0" "n0 \<le> 195839" "1 \<le> n1" "n1 \<le> 195839" "1 \<le> n2" "n2 \<le> 195839"
    "n0 + n1 + n2 = 195841"
    "0 < 261121 - 256 * int x - 511 * int y" "0 < 65025 - 255 * int x + 256 * int y"
    "0 < 511 * int x + 255 * int y - 130305"
proof -
  note v = centre_values [OF assms(1-5)]
  define n0 where "n0 = 261121 - 256 * int x - 511 * int y"
  define n1 where "n1 = 65025 - 255 * int x + 256 * int y"
  define n2 where "n2 = 511 * int x + 255 * int y - 130305"
  have e: "d0 = of_int n0" "d1 = of_int n1" "d2 = of_int n2"
    using v(1-3) by (simp_all only: n0_def n1_def n2_def)
  have p: "0 < n0" "0 < n1" "0 < n2" using assms(6-8) unfolding e by simp_all
  have s: "n0 + n1 + n2 = 195841" by (simp add: n0_def n1_def n2_def)
  have r: "1 \<le> n0" "n0 \<le> 195839" "1 \<le> n1" "n1 \<le> 195839" "1 \<le> n2" "n2 \<le> 195839"
    using p s by linarith+
  show ?thesis
    using that [OF e r s] p unfolding n0_def n1_def n2_def by blast
qed

lemma centre_pixel_values:
  "(256::nat) < WIDTH" "(256::nat) < HEIGHT"
  "test_edge main_edge0 (pixel_centre 256 256) = Finite 64769"
  "test_edge main_edge1 (pixel_centre 256 256) = Finite 65281"
  "test_edge main_edge2 (pixel_centre 256 256) = Finite 65791"
proof -
  show h: "(256::nat) < WIDTH" "(256::nat) < HEIGHT" by (simp_all add: WIDTH_def HEIGHT_def)
  show "test_edge main_edge0 (pixel_centre 256 256) = Finite 64769"
       "test_edge main_edge1 (pixel_centre 256 256) = Finite 65281"
       "test_edge main_edge2 (pixel_centre 256 256) = Finite 65791"
    using main_d0 [OF h] main_d1 [OF h] main_d2 [OF h] by simp_all
qed

lemma centre_pixel_weights:
  "fdiv (Finite 64769) main_area = Finite (11097201 / 33554432)"
  "fdiv (Finite 65281) main_area = Finite (11184925 / 33554432)"
  "fdiv (Finite 65791) main_area = Finite (5636153 / 16777216)"
  "fmul (Finite (11097201 / 33554432)) (Finite 255) = Finite (11053853 / 131072)"
  "fmul (Finite (11184925 / 33554432)) (Finite 255) = Finite (5570617 / 65536)"
  "fmul (Finite (5636153 / 16777216)) (Finite 255) = Finite (5614137 / 65536)"
proof -
  have "f32_round (64769 / 195841) = Finite (of_int 11097201 * 2 powi (- 2 - 23))"
    by (rule f32_round_eval) (simp_all add: power_int_minus)
  then show "fdiv (Finite 64769) main_area = Finite (11097201 / 33554432)"
    by (simp add: main_area_eq power_int_minus)
  have "f32_round (65281 / 195841) = Finite (of_int 11184925 * 2 powi (- 2 - 23))"
    by (rule f32_round_eval) (simp_all add: power_int_minus)
  then show "fdiv (Finite 65281) main_area = Finite (11184925 / 33554432)"
    by (simp add: main_area_eq power_int_minus)
  have "f32_round (65791 / 195841) = Finite (of_int 11272306 * 2 powi (- 2 - 23))"
    by (rule f32_round_eval) (simp_all add: power_int_minus)
  then show "fdiv (Finite 65791) main_area = Finite (5636153 / 16777216)"
    by (simp add: main_area_eq power_int_minus)
  have "f32_round (11097201 / 33554432 * 255) = Finite (of_int 11053853 * 2 powi (6 - 23))"
    by (rule f32_round_eval) (simp_all add: power_int_minus)
  then show "fmul (Finite (11097201 / 33554432)) (Finite 255) = Finite (11053853 / 131072)"
    by (simp add: power_int_minus)
  have "f32_round (11184925 / 33554432 * 255) = Finite (of_int 11141234 * 2 powi (6 - 23))"
    by (rule f32_round_eval) (simp_all add: power_int_minus)
  then show "fmul (Finite (11184925 / 33554432)) (Finite 255) = Finite (5570617 / 65536)"
    by (simp add: power_int_minus)
  have "f32_round (5636153 / 16777216 * 255) = Finite (of_int 11228274 * 2 powi (6 - 23))"
    by (rule f32_round_eval) (simp_all add: power_int_minus)
  then show "fmul (Finite (5636153 / 16777216)) (Finite 255) = Finite (5614137 / 65536)"
    by (simp add: power_int_minus)
qed

lemma centre_pixel_trunc:
  "trunc_zero (11053853 / 131072) = 84" "trunc_zero (5570617 / 65536) = 85"
  "trunc_zero (5614137 / 65536) = 85" "round_even (5614137 / 65536) = 86"
  by code_simp+

lemma centre_pixel_bytes:
  "f32_to_u8 (fmul (fdiv (Finite 64769) main_area) (Finite 255)) = Some 84"
  "f32_to_u8 (fmul (fdiv (Finite 65281) main_area) (Finite 255)) = Some 85"
  "f32_to_u8 (fmul (fdiv (Finite 65791) main_area) (Finite 255)) = Some 85"
  unfolding centre_pixel_weights by (simp_all add: f32_to_u8_def centre_pixel_trunc)

subsection \<open>The loops of the bitmap writer\<close>

lemma write_at_Nil: "ptr \<le> length bytes \<Longrightarrow> write_at (bytes, ptr) [] = (bytes, ptr)"
  by (simp add: write_at_def)

lemma write_at_length:
  "ptr + length vs \<le> length bytes \<Longrightarrow> length (fst (write_at (bytes, ptr) vs)) = length bytes"
  by (simp add: write_at_def)

lemma write_at_snd: "snd (write_at (bytes, ptr) vs) = ptr + length vs"
  by (simp add: write_at_def)

lemma write_at_append:
  assumes "ptr + length a + length b \<le> length bytes"
  shows "write_at (write_at (bytes, ptr) a) b = write_at (bytes, ptr) (a @ b)"
proof -
  have t: "take (ptr + length a) (take ptr bytes @ a @ drop (ptr + length a) bytes) = take ptr bytes @ a"
    using assms by simp
  have d: "drop (ptr + length a + length b) (take ptr bytes @ a @ drop (ptr + length a) bytes)
         = drop (ptr + length a + length b) bytes"
    using assms by (simp add: add.commute add.left_commute)
  show ?thesis unfolding write_at_def prod.case t d by (simp add: add.assoc)
qed

lemma put_write_at:
  assumes "ptr < length bytes"
  shows "put (bytes, ptr) v = Some (write_at (bytes, ptr) [v])"
  using assms by (simp add: put_def write_at_def upd_conv_take_nth_drop)

lemma load_nat:
  assumes "n < length buf"
  shows "load buf (int n) = Some (buf ! n)"
  using assms by (simp add: load_def)

lemma channel_loop_run:
  fixes i b :: nat
  assumes base: "(Y * W + X) * 3 = int b"
    and "b + i < length pixels" and "ptr + Suc i \<le> length bytes"
  shows "channel_loop pixels W X Y (int i) (bytes, ptr) =
           Some (write_at (bytes, ptr) (map (\<lambda>j. pixels ! (b + j)) (rev [0..<Suc i])))"
  using assms(2,3)
proof (induction i arbitrary: bytes ptr)
  case 0
  have l: "load pixels (int b) = Some (pixels ! b)" using "0.prems"(1) by (intro load_nat) simp
  have p: "put (bytes, ptr) (pixels ! b) = Some (write_at (bytes, ptr) [pixels ! b])"
    using "0.prems"(2) by (intro put_write_at) simp
  have e: "channel_loop pixels W X Y (- 1) s = Some s" for s
    by (subst channel_loop.simps) simp
  have "channel_loop pixels W X Y (int 0) (bytes, ptr) =
          (case load pixels ((Y * W + X) * 3 + int 0) of None \<Rightarrow> None
           | Some v \<Rightarrow> (case put (bytes, ptr) v of None \<Rightarrow> None
               | Some s' \<Rightarrow> channel_loop pixels W X Y (int 0 - 1) s'))"
    by (subst channel_loop.simps) (simp only: of_nat_0_le_iff if_True)
  also have "\<dots> = Some (write_at (bytes, ptr) [pixels ! b])"
    unfolding base by (simp add: l p e)
  finally show ?case by simp
next
  case (Suc i)
  have l: "load pixels (int (b + Suc i)) = Some (pixels ! (b + Suc i))"
    using Suc.prems(1) by (intro load_nat)
  have p: "put (bytes, ptr) (pixels ! (b + Suc i)) = Some (write_at (bytes, ptr) [pixels ! (b + Suc i)])"
    using Suc.prems(2) by (intro put_write_at) simp
  obtain b1 where w1: "write_at (bytes, ptr) [pixels ! (b + Suc i)] = (b1, ptr + 1)"
    by (simp add: write_at_def)
  have lb: "length b1 = length bytes"
    using write_at_length [of ptr "[pixels ! (b + Suc i)]" bytes] Suc.prems(2) w1 by simp
  have ih: "channel_loop pixels W X Y (int i) (b1, ptr + 1) =
           Some (write_at (b1, ptr + 1) (map (\<lambda>j. pixels ! (b + j)) (rev [0..<Suc i])))"
    using Suc.prems lb by (intro Suc.IH) simp_all
  have a: "write_at (b1, ptr + 1) (map (\<lambda>j. pixels ! (b + j)) (rev [0..<Suc i])) =
           write_at (bytes, ptr) (map (\<lambda>j. pixels ! (b + j)) (rev [0..<Suc (Suc i)]))"
  proof -
    have "write_at (write_at (bytes, ptr) [pixels ! (b + Suc i)])
            (map (\<lambda>j. pixels ! (b + j)) (rev [0..<Suc i])) =
          write_at (bytes, ptr) ([pixels ! (b + Suc i)] @ map (\<lambda>j. pixels ! (b + j)) (rev [0..<Suc i]))"
      using Suc.prems(2) by (intro write_at_append) simp
    then show ?thesis unfolding w1 by simp
  qed
  have "channel_loop pixels W X Y (int (Suc i)) (bytes, ptr) =
          (case load pixels ((Y * W + X) * 3 + int (Suc i)) of None \<Rightarrow> None
           | Some v \<Rightarrow> (case put (bytes, ptr) v of None \<Rightarrow> None
               | Some s' \<Rightarrow> channel_loop pixels W X Y (int (Suc i) - 1) s'))"
    by (subst channel_loop.simps) (simp only: of_nat_0_le_iff if_True)
  also have "(Y * W + X) * 3 + int (Suc i) = int (b + Suc i)" unfolding base by simp
  also have "int (Suc i) - 1 = int i" by simp
  finally have "channel_loop pixels W X Y (int (Suc i)) (bytes, ptr) =
          (case load pixels (int (b + Suc i)) of None \<Rightarrow> None
           | Some v \<Rightarrow> (case put (bytes, ptr) v of None \<Rightarrow> None
               | Some s' \<Rightarrow> channel_loop pixels W X Y (int i) s'))" .
  also have "\<dots> = channel_loop pixels W X Y (int i) (b1, ptr + 1)"
    by (simp only: l p w1 option.case)
  also have "\<dots> = Some (write_at (b1, ptr + 1) (map (\<lambda>j. pixels ! (b + j)) (rev [0..<Suc i])))"
    by (rule ih)
  also have "\<dots> = Some (write_at (bytes, ptr) (map (\<lambda>j. pixels ! (b + j)) (rev [0..<Suc (Suc i)])))"
    by (simp only: a)
  finally show ?case .
qed

lemma channel_loop_write:
  assumes "(y * w + x) * 3 + 2 < length pixels" and "ptr + 3 \<le> length bytes"
  shows "channel_loop pixels (int w) (int x) (int y) 2 (bytes, ptr) =
           Some (write_at (bytes, ptr) (bgr pixels w y x))"
proof -
  have base: "(int y * int w + int x) * 3 = int ((y * w + x) * 3)" by simp
  have "channel_loop pixels (int w) (int x) (int y) (int 2) (bytes, ptr) =
           Some (write_at (bytes, ptr) (map (\<lambda>j. pixels ! ((y * w + x) * 3 + j)) (rev [0..<Suc 2])))"
    using base assms(1) by (rule channel_loop_run) (use assms(2) in simp)
  moreover have "map (\<lambda>j. pixels ! ((y * w + x) * 3 + j)) (rev [0..<Suc 2]) = bgr pixels w y x"
    by (simp add: bgr_def numeral_2_eq_2)
  ultimately show ?thesis by simp
qed

lemma write_at_pair:
  assumes "ptr + length a \<le> length bytes"
  obtains b1 where "write_at (bytes, ptr) a = (b1, ptr + length a)" and "length b1 = length bytes"
  using assms by (simp add: write_at_def)

lemma length_bgr: "length (bgr pixels w y x) = 3"
  by (simp add: bgr_def)

lemma length_concat_bgr: "length (concat (map (bgr pixels w y) xs)) = 3 * length xs"
  by (induction xs) (simp_all add: length_bgr)

lemma pixel_loop_run:
  assumes "(y * w + w) * 3 \<le> length pixels"
    and "x \<le> w" and "ptr + 3 * (w - x) \<le> length bytes"
  shows "pixel_loop pixels (int w) (int y) (int x) (bytes, ptr) =
           Some (write_at (bytes, ptr) (concat (map (bgr pixels w y) [x..<w])))"
  using assms(2,3)
proof (induction "w - x" arbitrary: x bytes ptr)
  case 0
  then have x: "x = w" by simp
  have "pixel_loop pixels (int w) (int y) (int x) (bytes, ptr) = Some (bytes, ptr)"
    by (subst pixel_loop.simps) (simp add: x)
  moreover have "write_at (bytes, ptr) (concat (map (bgr pixels w y) [x..<w])) = (bytes, ptr)"
    using "0.prems"(2) by (simp add: x write_at_Nil)
  ultimately show ?case by simp
next
  case (Suc n)
  then have x: "x < w" by simp
  have rd: "(y * w + x) * 3 + 2 < length pixels"
  proof -
    have "(y * w + x) * 3 + 3 \<le> (y * w + w) * 3" using x by simp
    with assms(1) show ?thesis by linarith
  qed
  have room: "ptr + 3 \<le> length bytes" using Suc.prems(2) x by simp
  from write_at_pair [of ptr "bgr pixels w y x" bytes] room obtain b1 where
    w1: "write_at (bytes, ptr) (bgr pixels w y x) = (b1, ptr + 3)" and lb: "length b1 = length bytes"
    by (auto simp: length_bgr)
  have c: "channel_loop pixels (int w) (int x) (int y) 2 (bytes, ptr) = Some (b1, ptr + 3)"
    using channel_loop_write [OF rd room] w1 by simp
  have ih: "pixel_loop pixels (int w) (int y) (int (x + 1)) (b1, ptr + 3) =
           Some (write_at (b1, ptr + 3) (concat (map (bgr pixels w y) [x + 1..<w])))"
  proof (rule Suc.hyps(1))
    show "n = w - (x + 1)" using Suc.hyps(2) by simp
    show "x + 1 \<le> w" using x by simp
    show "ptr + 3 + 3 * (w - (x + 1)) \<le> length b1" using Suc.prems(2) x lb by simp
  qed
  have a: "write_at (b1, ptr + 3) (concat (map (bgr pixels w y) [x + 1..<w])) =
           write_at (bytes, ptr) (concat (map (bgr pixels w y) [x..<w]))"
  proof -
    have "write_at (write_at (bytes, ptr) (bgr pixels w y x))
            (concat (map (bgr pixels w y) [x + 1..<w])) =
          write_at (bytes, ptr) (bgr pixels w y x @ concat (map (bgr pixels w y) [x + 1..<w]))"
      using Suc.prems(2) x by (intro write_at_append) (simp add: length_bgr length_concat_bgr)
    moreover have "[x..<w] = x # [x + 1..<w]" using x by (simp add: upt_conv_Cons)
    ultimately show ?thesis unfolding w1 by simp
  qed
  have "pixel_loop pixels (int w) (int y) (int x) (bytes, ptr) =
          (case channel_loop pixels (int w) (int x) (int y) 2 (bytes, ptr) of None \<Rightarrow> None
           | Some s' \<Rightarrow> pixel_loop pixels (int w) (int y) (int x + 1) s')"
    using x by (subst pixel_loop.simps) (simp only: of_nat_less_iff if_True)
  also have "int x + 1 = int (x + 1)" by simp
  finally have "pixel_loop pixels (int w) (int y) (int x) (bytes, ptr) =
          (case channel_loop pixels (int w) (int x) (int y) 2 (bytes, ptr) of None \<Rightarrow> None
           | Some s' \<Rightarrow> pixel_loop pixels (int w) (int y) (int (x + 1)) s')" .
  also have "\<dots> = pixel_loop pixels (int w) (int y) (int (x + 1)) (b1, ptr + 3)"
    by (simp only: c option.case)
  also have "\<dots> = Some (write_at (b1, ptr + 3) (concat (map (bgr pixels w y) [x + 1..<w])))"
    by (rule ih)
  also have "\<dots> = Some (write_at (bytes, ptr) (concat (map (bgr pixels w y) [x..<w])))"
    by (simp only: a)
  finally show ?case .
qed

lemma padding_loop_run:
  assumes "i \<le> p" and "ptr + (p - i) \<le> length bytes"
  shows "padding_loop (int p) (int i) (bytes, ptr) = Some (write_at (bytes, ptr) (replicate (p - i) 0))"
  using assms
proof (induction "p - i" arbitrary: i bytes ptr)
  case 0
  then have i: "i = p" by simp
  have "padding_loop (int p) (int i) (bytes, ptr) = Some (bytes, ptr)"
    by (subst padding_loop.simps) (simp add: i)
  moreover have "write_at (bytes, ptr) (replicate (p - i) 0) = (bytes, ptr)"
    using "0.prems"(2) by (simp add: i write_at_Nil)
  ultimately show ?case by simp
next
  case (Suc n)
  then have i: "i < p" by simp
  have room: "ptr < length bytes" using Suc.prems(2) i by simp
  from write_at_pair [of ptr "[0]" bytes] room obtain b1 where
    w1: "write_at (bytes, ptr) [0] = (b1, ptr + 1)" and lb: "length b1 = length bytes"
    by auto
  have c: "put (bytes, ptr) 0 = Some (b1, ptr + 1)"
    using put_write_at [OF room, of 0] w1 by simp
  have ih: "padding_loop (int p) (int (i + 1)) (b1, ptr + 1) =
           Some (write_at (b1, ptr + 1) (replicate (p - (i + 1)) 0))"
  proof (rule Suc.hyps(1))
    show "n = p - (i + 1)" using Suc.hyps(2) by simp
    show "i + 1 \<le> p" using i by simp
    show "ptr + 1 + (p - (i + 1)) \<le> length b1" using Suc.prems(2) i lb by simp
  qed
  have a: "write_at (b1, ptr + 1) (replicate (p - (i + 1)) 0) =
           write_at (bytes, ptr) (replicate (p - i) 0)"
  proof -
    have "write_at (write_at (bytes, ptr) [0]) (replicate (p - (i + 1)) 0) =
          write_at (bytes, ptr) ([0] @ replicate (p - (i + 1)) 0)"
      using Suc.prems(2) i by (intro write_at_append) simp
    moreover have "replicate (p - i) (0::u8) = [0] @ replicate (p - (i + 1)) 0"
      using i by (cases "p - i") simp_all
    ultimately show ?thesis unfolding w1 by simp
  qed
  have "padding_loop (int p) (int i) (bytes, ptr) =
          (case put (bytes, ptr) 0 of None \<Rightarrow> None
           | Some s' \<Rightarrow> padding_loop (int p) (int i + 1) s')"
    using i by (subst padding_loop.simps) (simp only: of_nat_less_iff if_True)
  also have "int i + 1 = int (i + 1)" by simp
  finally have "padding_loop (int p) (int i) (bytes, ptr) =
          (case put (bytes, ptr) 0 of None \<Rightarrow> None
           | Some s' \<Rightarrow> padding_loop (int p) (int (i + 1)) s')" .
  also have "\<dots> = padding_loop (int p) (int (i + 1)) (b1, ptr + 1)"
    by (simp only: c option.case)
  also have "\<dots> = Some (write_at (b1, ptr + 1) (replicate (p - (i + 1)) 0))" by (rule ih)
  also have "\<dots> = Some (write_at (bytes, ptr) (replicate (p - i) 0))" by (simp only: a)
  finally show ?case .
qed

lemma bmp_row_bgr:
  "bmp_row pixels w p y = concat (map (bgr pixels w y) [0..<w]) @ replicate p 0"
  unfolding bmp_row_def bgr_def [abs_def] ..

lemma length_bmp_row: "length (bmp_row pixels w p y) = w * 3 + p"
  by (simp add: bmp_row_bgr length_concat_bgr)

lemma length_concat_rows:
  "length (concat (map (bmp_row pixels w p) ys)) = (w * 3 + p) * length ys"
  by (induction ys) (simp_all add: length_bmp_row)

lemma row_run:
  assumes "(y * w + w) * 3 \<le> length pixels" and "ptr + (w * 3 + p) \<le> length bytes"
  shows "\<exists>s1. pixel_loop pixels (int w) (int y) 0 (bytes, ptr) = Some s1 \<and>
              padding_loop (int p) 0 s1 = Some (write_at (bytes, ptr) (bmp_row pixels w p y))"
proof -
  have room: "ptr + 3 * (w - 0) \<le> length bytes" using assms(2) by simp
  from write_at_pair [of ptr "concat (map (bgr pixels w y) [0..<w])" bytes] assms(2) obtain b1 where
    w1: "write_at (bytes, ptr) (concat (map (bgr pixels w y) [0..<w])) = (b1, ptr + w * 3)"
    and lb: "length b1 = length bytes"
    by (auto simp: length_concat_bgr mult.commute)
  have "pixel_loop pixels (int w) (int y) (int 0) (bytes, ptr) =
           Some (write_at (bytes, ptr) (concat (map (bgr pixels w y) [0..<w])))"
    using assms(1) _ room by (rule pixel_loop_run) simp
  then have a: "pixel_loop pixels (int w) (int y) 0 (bytes, ptr) = Some (b1, ptr + w * 3)"
    unfolding w1 by simp
  have "padding_loop (int p) (int 0) (b1, ptr + w * 3) =
          Some (write_at (b1, ptr + w * 3) (replicate (p - 0) 0))"
    using assms(2) lb by (intro padding_loop_run) simp_all
  then have b: "padding_loop (int p) 0 (b1, ptr + w * 3) =
          Some (write_at (b1, ptr + w * 3) (replicate p 0))" by simp
  have "write_at (write_at (bytes, ptr) (concat (map (bgr pixels w y) [0..<w]))) (replicate p 0) =
          write_at (bytes, ptr) (concat (map (bgr pixels w y) [0..<w]) @ replicate p 0)"
    using assms(2) by (intro write_at_append) (simp add: length_concat_bgr mult.commute)
  then have c: "write_at (b1, ptr + w * 3) (replicate p 0) = write_at (bytes, ptr) (bmp_row pixels w p y)"
    unfolding w1 bmp_row_bgr .
  show ?thesis using a b c by simp
qed

lemma rows_loop_run:
  assumes "n * w * 3 \<le> length pixels" and "ptr + (w * 3 + p) * n \<le> length bytes"
  shows "rows_loop pixels (int w) (int p) (int n - 1) (bytes, ptr) =
           Some (write_at (bytes, ptr) (concat (map (bmp_row pixels w p) (rev [0..<n]))))"
  using assms
proof (induction n arbitrary: bytes ptr)
  case 0
  have "rows_loop pixels (int w) (int p) (int 0 - 1) (bytes, ptr) = Some (bytes, ptr)"
    by (subst rows_loop.simps) simp
  moreover have "write_at (bytes, ptr) (concat (map (bmp_row pixels w p) (rev [0..<0]))) = (bytes, ptr)"
    using "0.prems"(2) by (simp add: write_at_Nil)
  ultimately show ?case by simp
next
  case (Suc n)
  have rd: "(n * w + w) * 3 \<le> length pixels" using Suc.prems(1) by (simp add: algebra_simps)
  have room: "ptr + (w * 3 + p) \<le> length bytes" using Suc.prems(2) by simp
  from row_run [OF rd room] obtain s1 where
    r1: "pixel_loop pixels (int w) (int n) 0 (bytes, ptr) = Some s1"
    and r2: "padding_loop (int p) 0 s1 = Some (write_at (bytes, ptr) (bmp_row pixels w p n))"
    by blast
  from write_at_pair [of ptr "bmp_row pixels w p n" bytes] room obtain b2 where
    w2: "write_at (bytes, ptr) (bmp_row pixels w p n) = (b2, ptr + (w * 3 + p))"
    and lb: "length b2 = length bytes"
    by (auto simp: length_bmp_row)
  have ih: "rows_loop pixels (int w) (int p) (int n - 1) (b2, ptr + (w * 3 + p)) =
           Some (write_at (b2, ptr + (w * 3 + p)) (concat (map (bmp_row pixels w p) (rev [0..<n]))))"
  proof (rule Suc.IH)
    show "n * w * 3 \<le> length pixels" using Suc.prems(1) by simp
    show "ptr + (w * 3 + p) + (w * 3 + p) * n \<le> length b2" using Suc.prems(2) lb by simp
  qed
  have a: "write_at (b2, ptr + (w * 3 + p)) (concat (map (bmp_row pixels w p) (rev [0..<n]))) =
           write_at (bytes, ptr) (concat (map (bmp_row pixels w p) (rev [0..<Suc n])))"
  proof -
    have "write_at (write_at (bytes, ptr) (bmp_row pixels w p n))
            (concat (map (bmp_row pixels w p) (rev [0..<n]))) =
          write_at (bytes, ptr) (bmp_row pixels w p n @ concat (map (bmp_row pixels w p) (rev [0..<n])))"
      using Suc.prems(2) by (intro write_at_append) (simp add: length_bmp_row length_concat_rows)
    then show ?thesis unfolding w2 by simp
  qed
  have "rows_loop pixels (int w) (int p) (int (Suc n) - 1) (bytes, ptr) =
          rows_loop pixels (int w) (int p) (int n) (bytes, ptr)" by simp
  also have "\<dots> =
          (case pixel_loop pixels (int w) (int n) 0 (bytes, ptr) of None \<Rightarrow> None
           | Some s1 \<Rightarrow> (case padding_loop (int p) 0 s1 of None \<Rightarrow> None
               | Some s2 \<Rightarrow> rows_loop pixels (int w) (int p) (int n - 1) s2))"
    by (subst rows_loop.simps) (simp only: of_nat_0_le_iff if_True)
  also have "\<dots> = rows_loop pixels (int w) (int p) (int n - 1) (b2, ptr + (w * 3 + p))"
    by (simp only: r1 r2 w2 option.case)
  also have "\<dots> = Some (write_at (b2, ptr + (w * 3 + p)) (concat (map (bmp_row pixels w p) (rev [0..<n]))))"
    by (rule ih)
  also have "\<dots> = Some (write_at (bytes, ptr) (concat (map (bmp_row pixels w p) (rev [0..<Suc n]))))"
    by (simp only: a)
  finally show ?case .
qed

lemma c_rem_nonneg:
  assumes "0 \<le> a" and "0 < b"
  shows "c_rem a b = a mod b"
proof (cases "a = 0")
  case True
  then show ?thesis by (simp add: c_rem_def)
next
  case False
  then have "0 < a" using assms(1) by simp
  then have "c_rem a b = a - b * (a div b)" using assms(2) by (simp add: c_rem_def)
  then show ?thesis by (simp add: minus_mult_div_eq_mod)
qed

lemma c_int_nat: "n < 2 ^ 31 \<Longrightarrow> c_int (int n) = Some (int n)"
proof -
  assume "n < 2 ^ 31"
  then have "int n < int (2 ^ 31)" by (simp only: of_nat_less_iff)
  then show ?thesis by (simp add: c_int_def)
qed

lemma bmp_padding_nat:
  assumes "w * 3 < 2 ^ 31"
  shows "bmp_padding (int w) = Some (int ((4 - (w * 3) mod 4) mod 4))"
proof -
  have a: "c_int (int w * 3) = Some (int (w * 3))" using c_int_nat [OF assms] by simp
  have b: "c_rem (int (w * 3)) 4 = int ((w * 3) mod 4)"
    by (simp add: c_rem_nonneg zmod_int)
  have c: "4 - int ((w * 3) mod 4) = int (4 - (w * 3) mod 4)"
  proof -
    have "(w * 3) mod 4 < 4" by simp
    then show ?thesis by linarith
  qed
  have d: "c_rem (int (4 - (w * 3) mod 4)) 4 = int ((4 - (w * 3) mod 4) mod 4)"
    by (simp add: c_rem_nonneg zmod_int)
  show ?thesis unfolding bmp_padding_def a by (simp only: bind.bind_lunit b c d)
qed

lemma bmp_size_nat:
  assumes "w * 3 + (4 - (w * 3) mod 4) mod 4 < 2 ^ 31"
    and "54 + (w * 3 + (4 - (w * 3) mod 4) mod 4) * h < 2 ^ 31"
  shows "bmp_size (int w) (int h) = Some (int (54 + (w * 3 + (4 - (w * 3) mod 4) mod 4) * h))"
proof -
  define p where "p = (4 - (w * 3) mod 4) mod 4"
  have w3: "w * 3 < 2 ^ 31" using assms(1) by linarith
  have a: "c_int (int w * 3) = Some (int (w * 3))" using c_int_nat [OF w3] by simp
  have b: "bmp_padding (int w) = Some (int p)" unfolding p_def using w3 by (rule bmp_padding_nat)
  have c: "c_int (int (w * 3) + int p) = Some (int (w * 3 + p))"
    using c_int_nat [of "w * 3 + p"] assms(1) by (simp add: p_def)
  have "(w * 3 + p) * h < 2 ^ 31" using assms(2) unfolding p_def by linarith
  then have d: "c_int (int (w * 3 + p) * int h) = Some (int ((w * 3 + p) * h))"
    using c_int_nat [of "(w * 3 + p) * h"] by simp
  have e: "c_int (54 + int ((w * 3 + p) * h)) = Some (int (54 + (w * 3 + p) * h))"
    using c_int_nat [of "54 + (w * 3 + p) * h"] assms(2) by (simp add: p_def)
  show ?thesis
    unfolding bmp_size_def a b p_def [symmetric]
    by (simp only: bind.bind_lunit c d e)
qed

lemma length_bmp_header: "length (bmp_header fsize w h) = 54"
  by (simp add: bmp_header_def le32_def)

lemma bmp_bytes_layout:
  assumes "w * 3 + (4 - (w * 3) mod 4) mod 4 < 2 ^ 31"
    and "54 + (w * 3 + (4 - (w * 3) mod 4) mod 4) * h < 2 ^ 31"
    and "h < 2 ^ 31"
    and "h * w * 3 \<le> length pixels"
  shows "bmp_bytes fresh pixels (int w) (int h) = Some (bmp_layout pixels w h)"
proof -
  define p where "p = (4 - (w * 3) mod 4) mod 4"
  define n where "n = 54 + (w * 3 + p) * h"
  define rows where "rows = concat (map (bmp_row pixels w p) (rev [0..<h]))"
  define hdr where "hdr = bmp_header (int n) (int w) (int h)"
  define bytes where "bytes = hdr @ drop 54 (map fresh [0..<n])"
  have w3: "w * 3 < 2 ^ 31" using assms(1) by linarith
  have a: "bmp_padding (int w) = Some (int p)" unfolding p_def using w3 by (rule bmp_padding_nat)
  have b: "bmp_size (int w) (int h) = Some (int n)"
    unfolding n_def p_def using assms(1,2) by (rule bmp_size_nat)
  have c: "c_int (int h - 1) = Some (int h - 1)"
  proof -
    have "int h < int (2 ^ 31)" using assms(3) by (simp only: of_nat_less_iff)
    then show ?thesis by (simp add: c_int_def)
  qed
  have n54: "\<not> int n < 54"
  proof -
    have "54 \<le> n" by (simp add: n_def)
    then show ?thesis by linarith
  qed
  have lh: "length hdr = 54" by (simp add: hdr_def length_bmp_header)
  have lb: "length bytes = n" by (simp add: bytes_def lh n_def)
  have lr: "length rows = (w * 3 + p) * h" by (simp add: rows_def length_concat_rows)
  have run: "rows_loop pixels (int w) (int p) (int h - 1) (bytes, 54) = Some (write_at (bytes, 54) rows)"
    unfolding rows_def using assms(4) by (rule rows_loop_run) (simp add: lb n_def)
  have "fst (write_at (bytes, 54) rows) = take 54 bytes @ rows @ drop (54 + length rows) bytes"
    by (simp add: write_at_def)
  also have "take 54 bytes = hdr" by (simp add: bytes_def lh)
  also have "drop (54 + length rows) bytes = []" by (simp add: lb lr n_def)
  finally have res: "fst (write_at (bytes, 54) rows) = hdr @ rows" by simp
  have lay: "bmp_layout pixels w h = hdr @ rows"
    by (simp add: bmp_layout_def Let_def hdr_def rows_def n_def p_def)
  have "bmp_bytes fresh pixels (int w) (int h) =
          (if int n < 54 then None
           else (case rows_loop pixels (int w) (int p) (int h - 1) (bytes, 54) of
                   None \<Rightarrow> None | Some s \<Rightarrow> Some (fst s)))"
    unfolding bmp_bytes_def a b c bytes_def hdr_def
    by (simp add: Let_def split: option.splits)
  also have "\<dots> = Some (hdr @ rows)" using n54 by (simp add: run res)
  finally show ?thesis unfolding lay .
qed

lemma length_bmp_layout:
  "length (bmp_layout pixels w h) = 54 + (w * 3 + (4 - (w * 3) mod 4) mod 4) * h"
  by (simp add: bmp_layout_def Let_def length_bmp_header length_concat_rows)

lemma row_multiple_of_4: "(w * 3 + (4 - (w * 3) mod 4) mod 4) mod 4 = (0::nat)"
proof -
  define r where "r = (w * 3) mod 4"
  have "r < 4" by (simp add: r_def)
  then have "r = 0 \<or> r = 1 \<or> r = 2 \<or> r = 3" by linarith
  then have z: "(r + (4 - r) mod 4) mod 4 = 0" by auto
  have "(w * 3 + (4 - r) mod 4) mod 4 = ((w * 3) mod 4 + (4 - r) mod 4) mod 4"
    by (simp only: mod_add_left_eq)
  then show ?thesis using z by (simp only: r_def)
qed

lemma concat_nth_uniform:
  assumes "\<forall>xs \<in> set xss. length xs = r" and "k < length xss" and "j < r"
  shows "concat xss ! (k * r + j) = xss ! k ! j"
  using assms
proof (induction xss arbitrary: k)
  case Nil
  then show ?case by simp
next
  case (Cons a xss)
  have la: "length a = r" using Cons.prems(1) by simp
  show ?case
  proof (cases k)
    case 0
    then show ?thesis using Cons.prems(3) la by (simp add: nth_append)
  next
    case (Suc k')
    have "concat xss ! (k' * r + j) = xss ! k' ! j"
      using Cons.prems Suc by (intro Cons.IH) simp_all
    moreover have "Suc k' * r + j = length a + (k' * r + j)" by (simp add: la)
    ultimately show ?thesis unfolding Suc by (simp only: concat.simps nth_append_length_plus nth_Cons_Suc)
  qed
qed

lemma bmp_row_nth_pixel:
  assumes "x < w" and "c < 3"
  shows "bmp_row pixels w p y ! (x * 3 + c) = pixels ! ((y * w + x) * 3 + (2 - c))"
proof -
  have l: "x * 3 + c < length (concat (map (bgr pixels w y) [0..<w]))"
    using assms by (simp add: length_concat_bgr)
  have "concat (map (bgr pixels w y) [0..<w]) ! (x * 3 + c) = map (bgr pixels w y) [0..<w] ! x ! c"
    using assms by (intro concat_nth_uniform) (auto simp: length_bgr)
  also have "\<dots> = bgr pixels w y x ! c" using assms(1) by simp
  also have "\<dots> = pixels ! ((y * w + x) * 3 + (2 - c))"
  proof -
    have "c = 0 \<or> c = 1 \<or> c = 2" using assms(2) by linarith
    then show ?thesis by (auto simp: bgr_def)
  qed
  finally show ?thesis using l by (simp add: bmp_row_bgr nth_append)
qed

lemma bmp_row_nth_padding:
  assumes "i < p"
  shows "bmp_row pixels w p y ! (w * 3 + i) = 0"
proof -
  have "bmp_row pixels w p y ! (length (concat (map (bgr pixels w y) [0..<w])) + i) = replicate p 0 ! i"
    unfolding bmp_row_bgr by (rule nth_append_length_plus)
  then show ?thesis using assms by (simp add: length_concat_bgr mult.commute)
qed

lemma bmp_layout_nth_row:
  assumes "y < h" and "j < w * 3 + (4 - (w * 3) mod 4) mod 4"
  shows "bmp_layout pixels w h ! (54 + (h - 1 - y) * (w * 3 + (4 - (w * 3) mod 4) mod 4) + j) =
           bmp_row pixels w ((4 - (w * 3) mod 4) mod 4) y ! j"
proof -
  define p where "p = (4 - (w * 3) mod 4) mod 4"
  define rows where "rows = map (bmp_row pixels w p) (rev [0..<h])"
  have k: "h - 1 - y < length rows" using assms(1) by (simp add: rows_def)
  have "concat rows ! ((h - 1 - y) * (w * 3 + p) + j) = rows ! (h - 1 - y) ! j"
    using _ k assms(2) [folded p_def] by (rule concat_nth_uniform) (auto simp: rows_def length_bmp_row)
  also have "rows ! (h - 1 - y) = bmp_row pixels w p (rev [0..<h] ! (h - 1 - y))"
    using k by (simp add: rows_def)
  also have "rev [0..<h] ! (h - 1 - y) = y" using assms(1) by (simp add: rev_nth)
  finally have c: "concat rows ! ((h - 1 - y) * (w * 3 + p) + j) = bmp_row pixels w p y ! j" .
  have "bmp_layout pixels w h = bmp_header (int (54 + (w * 3 + p) * h)) (int w) (int h) @ concat rows"
    by (simp add: bmp_layout_def Let_def rows_def p_def)
  then have "bmp_layout pixels w h ! (54 + ((h - 1 - y) * (w * 3 + p) + j)) =
               concat rows ! ((h - 1 - y) * (w * 3 + p) + j)"
    using nth_append_length_plus [of "bmp_header (int (54 + (w * 3 + p) * h)) (int w) (int h)" "concat rows"
        "(h - 1 - y) * (w * 3 + p) + j"]
    by (simp add: length_bmp_header)
  then show ?thesis using c unfolding p_def by (simp add: add.assoc)
qed

lemma take_bmp_layout:
  "take 54 (bmp_layout pixels w h) =
     bmp_header (int (54 + (w * 3 + (4 - (w * 3) mod 4) mod 4) * h)) (int w) (int h)"
  by (simp add: bmp_layout_def Let_def length_bmp_header)

lemma bmp_header_start: "take 2 (bmp_header fsize w h) = [0x42, 0x4D]"
  by (simp add: bmp_header_def)

lemma small_bitmap:
  "bmp_layout [1, 2, 3, 4, 5, 6] 1 2 =
     [66, 77, 62, 0, 0, 0, 0, 0, 0, 0, 54, 0, 0, 0, 40, 0, 0, 0, 1, 0, 0, 0, 2, 0, 0, 0,
      1, 0, 24, 0, 0, 0, 0, 0, 0, 0, 0, 0, 0, 0, 0, 0, 0, 0, 0, 0, 0, 0, 0, 0, 0, 0, 0, 0,
      6, 5, 4, 0, 3, 2, 1, 0]"
  by code_simp

lemma rasterize_cleared:
  "\<exists>pixels. rasterize cleared = Some pixels \<and> length pixels = WIDTH * HEIGHT * 3"
proof -
  have "length cleared = WIDTH * HEIGHT * 3" by (simp add: cleared_def)
  from rasterize_result [OF this] show ?thesis by blast
qed

lemma canvas_bitmap:
  assumes "length pixels = WIDTH * HEIGHT * 3"
  shows "bmp_bytes fresh pixels (int WIDTH) (int HEIGHT) = Some (bmp_layout pixels WIDTH HEIGHT)"
    and "length (bmp_layout pixels WIDTH HEIGHT) = 786486"
proof -
  show "bmp_bytes fresh pixels (int WIDTH) (int HEIGHT) = Some (bmp_layout pixels WIDTH HEIGHT)"
    by (rule bmp_bytes_layout) (simp_all add: assms, simp_all add: WIDTH_def HEIGHT_def)
  show "length (bmp_layout pixels WIDTH HEIGHT) = 786486"
    unfolding length_bmp_layout by (simp add: WIDTH_def HEIGHT_def)
qed

subsection \<open>Edge construction and evaluation\<close>

text \<open>
  C5. For every ordered pair of points, \<^verbatim>\<open>init_edge\<close> yields the coefficients
  \<open>a = v0.y - v1.y\<close>, \<open>b = v1.x - v0.x\<close>, \<open>c = v0.x * v1.y - v0.y * v1.x\<close>, and
  \<^verbatim>\<open>test_edge\<close> returns \<open>a * x + b * y + c\<close>, each operation being the binary32 one.
\<close>

theorem init_edge_test_edge_formulas:
  "edge_a (init_edge v0 v1) = fsub (vec_y v0) (vec_y v1) \<and>
   edge_b (init_edge v0 v1) = fsub (vec_x v1) (vec_x v0) \<and>
   edge_c (init_edge v0 v1) = fsub (fmul (vec_x v0) (vec_y v1)) (fmul (vec_y v0) (vec_x v1)) \<and>
   test_edge e p = fadd (fadd (fmul (edge_a e) (vec_x p)) (fmul (edge_b e) (vec_y p))) (edge_c e)"
  by (simp add: init_edge_def test_edge_def)

subsection \<open>The area\<close>

text \<open>
  C1, as stated, fails: for the vertices of \<^verbatim>\<open>main\<close> the sum of the three c-terms is
  \<open>195841\<close>, and the formula of the specification gives \<open>-195841\<close>.
\<close>

theorem area_shoelace_counterexample:
  "main_v0 = vec2 (511 / 2, 1 / 2) \<and> main_v1 = vec2 (1 / 2, 1023 / 2) \<and>
   main_v2 = vec2 (1023 / 2, 511 / 2) \<and>
   triangle_area main_v0 main_v1 main_v2 = Finite 195841 \<and>
   shoelace (511 / 2, 1 / 2) (1 / 2, 1023 / 2) (1023 / 2, 511 / 2) = - 195841"
proof -
  have "shoelace (511 / 2, 1 / 2) (1 / 2, 1023 / 2) (1023 / 2, 511 / 2) = - 195841"
    by (simp add: shoelace_def)
  moreover have "triangle_area main_v0 main_v1 main_v2 = Finite 195841"
    using main_area_eq by (simp add: main_area_triangle_area)
  ultimately show ?thesis
    by (simp only: main_v0_eq main_v1_eq main_v2_eq simp_thms)
qed

text \<open>
  C1, amended. For every three vertices on the half-integer grid of the canvas (the
  vertices of \<^verbatim>\<open>main\<close> are such), the sum of the three c-terms, with the edges built as
  edge(v2,v1), edge(v0,v2), edge(v1,v0), is computed without rounding and equals the
  negated formula, \<open>(v2.x - v0.x) * (v1.y - v0.y) - (v1.x - v0.x) * (v2.y - v0.y)\<close>.
\<close>

theorem area_negated_shoelace:
  assumes "on_grid p0" and "on_grid p1" and "on_grid p2"
  shows "triangle_area (vec2 p0) (vec2 p1) (vec2 p2) = Finite (- shoelace p0 p1 p2) \<and>
         - shoelace p0 p1 p2 =
           (fst p2 - fst p0) * (snd p1 - snd p0) - (fst p1 - fst p0) * (snd p2 - snd p0)"
  using triangle_area_grid [OF assms] by (simp add: shoelace_def)

theorem area_negated_shoelace_witness:
  "on_grid (511 / 2, 1 / 2) \<and> on_grid (1 / 2, 1023 / 2) \<and> on_grid (1023 / 2, 511 / 2) \<and>
   triangle_area (vec2 (511 / 2, 1 / 2)) (vec2 (1 / 2, 1023 / 2)) (vec2 (1023 / 2, 511 / 2))
     = Finite 195841"
proof -
  have g: "on_grid (511 / 2, 1 / 2)" "on_grid (1 / 2, 1023 / 2)" "on_grid (1023 / 2, 511 / 2)"
    by (simp_all add: on_grid_def half_grid_def)
  have "- shoelace (511 / 2, 1 / 2) (1 / 2, 1023 / 2) (1023 / 2, 511 / 2) = 195841"
    by (simp add: shoelace_def)
  with area_negated_shoelace [OF g] g show ?thesis by simp
qed

subsection \<open>The inside test\<close>

text \<open>
  C2. For every pixel \<open>(x, y)\<close> of the canvas the three edge values at its centre are
  finite, and the test of \<^verbatim>\<open>main\<close> holds if and only if all three are strictly positive.
  In that case the loop body stores the three channel values computed from the edge
  values in the three bytes of the pixel; otherwise, in particular when some edge value
  is 0, it leaves the buffer as it is.
\<close>

theorem inside_iff_all_positive:
  assumes "x < WIDTH" and "y < HEIGHT" and "length pixels = WIDTH * HEIGHT * 3"
  shows "\<exists>d0 d1 d2.
           test_edge main_edge0 (pixel_centre x y) = Finite d0 \<and>
           test_edge main_edge1 (pixel_centre x y) = Finite d1 \<and>
           test_edge main_edge2 (pixel_centre x y) = Finite d2 \<and>
           inside (test_edge main_edge0 (pixel_centre x y)) (test_edge main_edge1 (pixel_centre x y))
                  (test_edge main_edge2 (pixel_centre x y)) = Some (0 < d0 \<and> 0 < d1 \<and> 0 < d2) \<and>
           (if 0 < d0 \<and> 0 < d1 \<and> 0 < d2
            then \<exists>r g b.
                   f32_to_u8 (fmul (fdiv (Finite d0) main_area) (Finite 255)) = Some r \<and>
                   f32_to_u8 (fmul (fdiv (Finite d1) main_area) (Finite 255)) = Some g \<and>
                   f32_to_u8 (fmul (fdiv (Finite d2) main_area) (Finite 255)) = Some b \<and>
                   shade_pixel main_edge0 main_edge1 main_edge2 main_area x y pixels =
                     Some (pixels[(y * WIDTH + x) * 3 + 0 := r, (y * WIDTH + x) * 3 + 1 := g,
                                  (y * WIDTH + x) * 3 + 2 := b])
            else shade_pixel main_edge0 main_edge1 main_edge2 main_area x y pixels = Some pixels)"
proof -
  define n0 where "n0 = 261121 - 256 * int x - 511 * int y"
  define n1 where "n1 = 65025 - 255 * int x + 256 * int y"
  define n2 where "n2 = 511 * int x + 255 * int y - 130305"
  note d = main_d0 [OF assms(1,2), folded n0_def] main_d1 [OF assms(1,2), folded n1_def]
    main_d2 [OF assms(1,2), folded n2_def]
  have i: "inside (test_edge main_edge0 (pixel_centre x y)) (test_edge main_edge1 (pixel_centre x y))
                  (test_edge main_edge2 (pixel_centre x y)) =
             Some (0 < (of_int n0 :: rat) \<and> 0 < (of_int n1 :: rat) \<and> 0 < (of_int n2 :: rat))"
    unfolding d by (simp add: inside_finite)
  note sp = shade_pixel_paint [OF assms]
  note ix = pixel_index_eq(1) [OF assms(1,2)]
  have e: "if 0 < (of_int n0 :: rat) \<and> 0 < (of_int n1 :: rat) \<and> 0 < (of_int n2 :: rat)
            then \<exists>r g b.
                   f32_to_u8 (fmul (fdiv (Finite (of_int n0)) main_area) (Finite 255)) = Some r \<and>
                   f32_to_u8 (fmul (fdiv (Finite (of_int n1)) main_area) (Finite 255)) = Some g \<and>
                   f32_to_u8 (fmul (fdiv (Finite (of_int n2)) main_area) (Finite 255)) = Some b \<and>
                   shade_pixel main_edge0 main_edge1 main_edge2 main_area x y pixels =
                     Some (pixels[(y * WIDTH + x) * 3 + 0 := r, (y * WIDTH + x) * 3 + 1 := g,
                                  (y * WIDTH + x) * 3 + 2 := b])
            else shade_pixel main_edge0 main_edge1 main_edge2 main_area x y pixels = Some pixels"
  proof (cases "0 < n0 \<and> 0 < n1 \<and> 0 < n2")
    case True
    then have pos: "0 < 261121 - 256 * int x - 511 * int y" "0 < 65025 - 255 * int x + 256 * int y"
      "0 < 511 * int x + 255 * int y - 130305"
      by (simp_all add: n0_def n1_def n2_def)
    have "\<exists>r g b.
           f32_to_u8 (fmul (fdiv (Finite (of_int n0)) main_area) (Finite 255)) = Some r \<and>
           f32_to_u8 (fmul (fdiv (Finite (of_int n1)) main_area) (Finite 255)) = Some g \<and>
           f32_to_u8 (fmul (fdiv (Finite (of_int n2)) main_area) (Finite 255)) = Some b \<and>
           pixel_colour x y = Some (r, g, b)"
      using pixel_colour_inside [OF assms(1,2) pos] unfolding d .
    then obtain r g b where
      c: "f32_to_u8 (fmul (fdiv (Finite (of_int n0)) main_area) (Finite 255)) = Some r"
         "f32_to_u8 (fmul (fdiv (Finite (of_int n1)) main_area) (Finite 255)) = Some g"
         "f32_to_u8 (fmul (fdiv (Finite (of_int n2)) main_area) (Finite 255)) = Some b"
         "pixel_colour x y = Some (r, g, b)"
      by blast
    have "paint x y pixels = pixels[(y * WIDTH + x) * 3 + 0 := r, (y * WIDTH + x) * 3 + 1 := g,
                                (y * WIDTH + x) * 3 + 2 := b]"
      using ix [of 0] ix [of 1] ix [of 2] by (simp add: paint_def c(4))
    then have "shade_pixel main_edge0 main_edge1 main_edge2 main_area x y pixels =
                     Some (pixels[(y * WIDTH + x) * 3 + 0 := r, (y * WIDTH + x) * 3 + 1 := g,
                                  (y * WIDTH + x) * 3 + 2 := b])"
      using sp by simp
    with c(1-3) have "\<exists>r g b.
                   f32_to_u8 (fmul (fdiv (Finite (of_int n0)) main_area) (Finite 255)) = Some r \<and>
                   f32_to_u8 (fmul (fdiv (Finite (of_int n1)) main_area) (Finite 255)) = Some g \<and>
                   f32_to_u8 (fmul (fdiv (Finite (of_int n2)) main_area) (Finite 255)) = Some b \<and>
                   shade_pixel main_edge0 main_edge1 main_edge2 main_area x y pixels =
                     Some (pixels[(y * WIDTH + x) * 3 + 0 := r, (y * WIDTH + x) * 3 + 1 := g,
                                  (y * WIDTH + x) * 3 + 2 := b])"
      by blast
    moreover have "0 < (of_int n0 :: rat) \<and> 0 < (of_int n1 :: rat) \<and> 0 < (of_int n2 :: rat)"
      using True by simp
    ultimately show ?thesis by (simp only: if_True simp_thms)
  next
    case False
    then have "pixel_colour x y = None"
      using pixel_colour_outside [OF assms(1,2)] unfolding n0_def n1_def n2_def by blast
    then have "paint x y pixels = pixels" by (simp add: paint_def)
    then have "shade_pixel main_edge0 main_edge1 main_edge2 main_area x y pixels = Some pixels"
      using sp by simp
    moreover have "\<not> (0 < (of_int n0 :: rat) \<and> 0 < (of_int n1 :: rat) \<and> 0 < (of_int n2 :: rat))"
      using False by simp
    ultimately show ?thesis by (simp only: if_False simp_thms)
  qed
  show ?thesis
    by (intro exI [of _ "of_int n0"] exI [of _ "of_int n1"] exI [of _ "of_int n2"] conjI d i e)
qed

text \<open>
  The pixel \<open>(255, 0)\<close>, whose centre is the vertex \<open>v0\<close>, has the edge value 0 for
  \<open>edge1\<close> and is not coloured; the pixel \<open>(256, 256)\<close> has three positive edge
  values and receives the bytes 84, 85, 85.
\<close>

theorem inside_iff_all_positive_witness:
  "255 < WIDTH \<and> 0 < HEIGHT \<and> 256 < WIDTH \<and> 256 < HEIGHT \<and>
   length cleared = WIDTH * HEIGHT * 3 \<and>
   test_edge main_edge1 (pixel_centre 255 0) = Finite 0 \<and>
   inside (test_edge main_edge0 (pixel_centre 255 0)) (test_edge main_edge1 (pixel_centre 255 0))
          (test_edge main_edge2 (pixel_centre 255 0)) = Some False \<and>
   shade_pixel main_edge0 main_edge1 main_edge2 main_area 255 0 cleared = Some cleared \<and>
   test_edge main_edge0 (pixel_centre 256 256) = Finite 64769 \<and>
   test_edge main_edge1 (pixel_centre 256 256) = Finite 65281 \<and>
   test_edge main_edge2 (pixel_centre 256 256) = Finite 65791 \<and>
   inside (test_edge main_edge0 (pixel_centre 256 256)) (test_edge main_edge1 (pixel_centre 256 256))
          (test_edge main_edge2 (pixel_centre 256 256)) = Some True \<and>
   shade_pixel main_edge0 main_edge1 main_edge2 main_area 256 256 cleared =
     Some (cleared[(256 * WIDTH + 256) * 3 + 0 := 84, (256 * WIDTH + 256) * 3 + 1 := 85,
                   (256 * WIDTH + 256) * 3 + 2 := 85])"
proof -
  have h: "255 < WIDTH" "0 < HEIGHT" "length cleared = WIDTH * HEIGHT * 3"
    by (simp_all add: WIDTH_def HEIGHT_def cleared_def)
  have d1: "test_edge main_edge1 (pixel_centre 255 0) = Finite 0"
    using main_d1 [OF h(1,2)] by simp
  from inside_iff_all_positive [OF h] obtain d0 d1' d2 where
    a: "test_edge main_edge1 (pixel_centre 255 0) = Finite d1'"
       "inside (test_edge main_edge0 (pixel_centre 255 0)) (test_edge main_edge1 (pixel_centre 255 0))
          (test_edge main_edge2 (pixel_centre 255 0)) = Some (0 < d0 \<and> 0 < d1' \<and> 0 < d2)"
       "if 0 < d0 \<and> 0 < d1' \<and> 0 < d2
        then \<exists>r g b.
                   f32_to_u8 (fmul (fdiv (Finite d0) main_area) (Finite 255)) = Some r \<and>
                   f32_to_u8 (fmul (fdiv (Finite d1') main_area) (Finite 255)) = Some g \<and>
                   f32_to_u8 (fmul (fdiv (Finite d2) main_area) (Finite 255)) = Some b \<and>
                   shade_pixel main_edge0 main_edge1 main_edge2 main_area 255 0 cleared =
                     Some (cleared[(0 * WIDTH + 255) * 3 + 0 := r, (0 * WIDTH + 255) * 3 + 1 := g,
                                  (0 * WIDTH + 255) * 3 + 2 := b])
        else shade_pixel main_edge0 main_edge1 main_edge2 main_area 255 0 cleared = Some cleared"
    by (elim exE conjE)
  have z: "d1' = 0" using a(1) unfolding d1 by simp
  have out: "inside (test_edge main_edge0 (pixel_centre 255 0)) (test_edge main_edge1 (pixel_centre 255 0))
          (test_edge main_edge2 (pixel_centre 255 0)) = Some False"
       "shade_pixel main_edge0 main_edge1 main_edge2 main_area 255 0 cleared = Some cleared"
    using a(2,3) unfolding z by simp_all
  note v = centre_pixel_values
  from inside_iff_all_positive [OF v(1,2) h(3)] obtain e0 e1 e2 where
    b: "test_edge main_edge0 (pixel_centre 256 256) = Finite e0"
       "test_edge main_edge1 (pixel_centre 256 256) = Finite e1"
       "test_edge main_edge2 (pixel_centre 256 256) = Finite e2"
       "inside (test_edge main_edge0 (pixel_centre 256 256)) (test_edge main_edge1 (pixel_centre 256 256))
          (test_edge main_edge2 (pixel_centre 256 256)) = Some (0 < e0 \<and> 0 < e1 \<and> 0 < e2)"
       "if 0 < e0 \<and> 0 < e1 \<and> 0 < e2
        then \<exists>r g b.
                   f32_to_u8 (fmul (fdiv (Finite e0) main_area) (Finite 255)) = Some r \<and>
                   f32_to_u8 (fmul (fdiv (Finite e1) main_area) (Finite 255)) = Some g \<and>
                   f32_to_u8 (fmul (fdiv (Finite e2) main_area) (Finite 255)) = Some b \<and>
                   shade_pixel main_edge0 main_edge1 main_edge2 main_area 256 256 cleared =
                     Some (cleared[(256 * WIDTH + 256) * 3 + 0 := r, (256 * WIDTH + 256) * 3 + 1 := g,
                                  (256 * WIDTH + 256) * 3 + 2 := b])
        else shade_pixel main_edge0 main_edge1 main_edge2 main_area 256 256 cleared = Some cleared"
    by (elim exE conjE)
  have e: "e0 = 64769" "e1 = 65281" "e2 = 65791"
    using b(1-3) unfolding v(3-5) by simp_all
  have ins: "inside (test_edge main_edge0 (pixel_centre 256 256)) (test_edge main_edge1 (pixel_centre 256 256))
          (test_edge main_edge2 (pixel_centre 256 256)) = Some True"
    using b(4) unfolding e by simp
  have "shade_pixel main_edge0 main_edge1 main_edge2 main_area 256 256 cleared =
     Some (cleared[(256 * WIDTH + 256) * 3 + 0 := 84, (256 * WIDTH + 256) * 3 + 1 := 85,
                   (256 * WIDTH + 256) * 3 + 2 := 85])"
    using b(5) unfolding e centre_pixel_bytes by simp
  with h v d1 out ins show ?thesis by simp
qed

subsection \<open>Pixels outside the triangle\<close>

text \<open>
  C7. For every pixel of the canvas with some edge value at most 0 at its centre, the
  pixel loops leave each of its three bytes as it was before; in the buffer of \<^verbatim>\<open>main\<close>,
  which is cleared before the loops, these bytes are 0 afterwards.
\<close>

theorem outside_pixel_unchanged:
  assumes "x < WIDTH" and "y < HEIGHT" and "c < 3"
    and "length pixels = WIDTH * HEIGHT * 3"
    and "test_edge main_edge0 (pixel_centre x y) = Finite d0"
    and "test_edge main_edge1 (pixel_centre x y) = Finite d1"
    and "test_edge main_edge2 (pixel_centre x y) = Finite d2"
    and "d0 \<le> 0 \<or> d1 \<le> 0 \<or> d2 \<le> 0"
  shows "(\<exists>pixels'. rasterize pixels = Some pixels' \<and>
            pixels' ! ((y * WIDTH + x) * 3 + c) = pixels ! ((y * WIDTH + x) * 3 + c)) \<and>
         (\<exists>pixels'. rasterize cleared = Some pixels' \<and> pixels' ! ((y * WIDTH + x) * 3 + c) = 0)"
proof -
  note v = centre_values [OF assms(1,2,5-7)]
  have "\<not> (0 < 261121 - 256 * int x - 511 * int y \<and> 0 < 65025 - 255 * int x + 256 * int y
            \<and> 0 < 511 * int x + 255 * int y - 130305)"
    using assms(8) unfolding v(1-3) by auto
  then have none: "pixel_colour x y = None" by (rule pixel_colour_outside [OF assms(1,2)])
  note idx = pixel_index_eq [OF assms(1-3)]
  have a: "\<exists>pixels'. rasterize buf = Some pixels' \<and>
            pixels' ! ((y * WIDTH + x) * 3 + c) = buf ! ((y * WIDTH + x) * 3 + c)"
    if "length buf = WIDTH * HEIGHT * 3" for buf
  proof -
    from rasterize_result [OF that] obtain pixels' where
      r: "rasterize buf = Some pixels'"
         "\<And>x y c. x < WIDTH \<Longrightarrow> y < HEIGHT \<Longrightarrow> c < 3 \<Longrightarrow>
              pixels' ! pixel_index x y c =
                (case pixel_colour x y of None \<Rightarrow> buf ! pixel_index x y c
                 | Some (r, g, b) \<Rightarrow> [r, g, b] ! c)"
      by blast
    have "pixels' ! pixel_index x y c = buf ! pixel_index x y c"
      using r(2) [OF assms(1-3)] by (simp add: none)
    then show ?thesis using r(1) unfolding idx(1) by blast
  qed
  have l: "length cleared = WIDTH * HEIGHT * 3" by (simp add: cleared_def)
  have z: "cleared ! ((y * WIDTH + x) * 3 + c) = 0"
    using idx unfolding cleared_def by simp
  show ?thesis using a [OF assms(4)] a [OF l] unfolding z by blast
qed

theorem outside_pixel_unchanged_witness:
  "(0::nat) < WIDTH \<and> (0::nat) < HEIGHT \<and> (2::nat) < 3 \<and>
   length cleared = WIDTH * HEIGHT * 3 \<and>
   test_edge main_edge0 (pixel_centre 0 0) = Finite 261121 \<and>
   test_edge main_edge1 (pixel_centre 0 0) = Finite 65025 \<and>
   test_edge main_edge2 (pixel_centre 0 0) = Finite (- 130305) \<and>
   (\<exists>pixels'. rasterize cleared = Some pixels' \<and> pixels' ! ((0 * WIDTH + 0) * 3 + 2) = 0)"
proof -
  have h: "(0::nat) < WIDTH" "(0::nat) < HEIGHT" "(2::nat) < 3" "length cleared = WIDTH * HEIGHT * 3"
    by (simp_all add: WIDTH_def HEIGHT_def cleared_def)
  have d: "test_edge main_edge0 (pixel_centre 0 0) = Finite 261121"
          "test_edge main_edge1 (pixel_centre 0 0) = Finite 65025"
          "test_edge main_edge2 (pixel_centre 0 0) = Finite (- 130305)"
    using main_d0 [OF h(1,2)] main_d1 [OF h(1,2)] main_d2 [OF h(1,2)] by simp_all
  have o: "(261121::rat) \<le> 0 \<or> (65025::rat) \<le> 0 \<or> (- 130305::rat) \<le> 0" by simp
  from outside_pixel_unchanged [OF h d o] h d show ?thesis by blast
qed

subsection \<open>Channel values\<close>

text \<open>
  C4. For every inside pixel, each weight \<open>i = d0 / area\<close>, \<open>j = d1 / area\<close>,
  \<open>k = d2 / area\<close> is multiplied by 255 and truncated toward zero, and the results
  are the bytes at the offsets 0 (red), 1 (green) and 2 (blue) of the pixel's slot
  \<open>(y * WIDTH + x) * 3\<close> after the loops.
\<close>

theorem inside_pixel_channels:
  assumes "x < WIDTH" and "y < HEIGHT" and "length pixels = WIDTH * HEIGHT * 3"
    and "test_edge main_edge0 (pixel_centre x y) = Finite d0"
    and "test_edge main_edge1 (pixel_centre x y) = Finite d1"
    and "test_edge main_edge2 (pixel_centre x y) = Finite d2"
    and "0 < d0" and "0 < d1" and "0 < d2"
  shows "\<exists>i j k r g b pixels'.
           fdiv (Finite d0) main_area = Finite i \<and>
           fdiv (Finite d1) main_area = Finite j \<and>
           fdiv (Finite d2) main_area = Finite k \<and>
           fmul (Finite i) (Finite 255) = Finite r \<and>
           fmul (Finite j) (Finite 255) = Finite g \<and>
           fmul (Finite k) (Finite 255) = Finite b \<and>
           rasterize pixels = Some pixels' \<and>
           pixels' ! ((y * WIDTH + x) * 3 + 0) = word_of_int (trunc_zero r) \<and>
           pixels' ! ((y * WIDTH + x) * 3 + 1) = word_of_int (trunc_zero g) \<and>
           pixels' ! ((y * WIDTH + x) * 3 + 2) = word_of_int (trunc_zero b)"
proof -
  from centre_ranges [OF assms(1,2,4-9)] obtain n0 n1 n2 :: int where
    n: "d0 = of_int n0" "d1 = of_int n1" "d2 = of_int n2"
       "1 \<le> n0" "n0 \<le> 195839" "1 \<le> n1" "n1 \<le> 195839" "1 \<le> n2" "n2 \<le> 195839"
    and pos: "0 < 261121 - 256 * int x - 511 * int y" "0 < 65025 - 255 * int x + 256 * int y"
       "0 < 511 * int x + 255 * int y - 130305"
    by blast
  from channel_ok [OF n(4,5)] obtain i r where
    i: "fdiv (Finite d0) main_area = Finite i" "fmul (Finite i) (Finite 255) = Finite r"
       "f32_to_u8 (Finite r) = Some (word_of_int (trunc_zero r))"
    unfolding n(1) by blast
  from channel_ok [OF n(6,7)] obtain j g where
    j: "fdiv (Finite d1) main_area = Finite j" "fmul (Finite j) (Finite 255) = Finite g"
       "f32_to_u8 (Finite g) = Some (word_of_int (trunc_zero g))"
    unfolding n(2) by blast
  from channel_ok [OF n(8,9)] obtain k b where
    k: "fdiv (Finite d2) main_area = Finite k" "fmul (Finite k) (Finite 255) = Finite b"
       "f32_to_u8 (Finite b) = Some (word_of_int (trunc_zero b))"
    unfolding n(3) by blast
  from pixel_colour_inside [OF assms(1,2) pos] have
    col: "pixel_colour x y = Some (word_of_int (trunc_zero r), word_of_int (trunc_zero g),
                                   word_of_int (trunc_zero b))"
    unfolding assms(4-6) i j k by auto
  from rasterize_result [OF assms(3)] obtain pixels' where
    p: "rasterize pixels = Some pixels'"
       "\<And>x y c. x < WIDTH \<Longrightarrow> y < HEIGHT \<Longrightarrow> c < 3 \<Longrightarrow>
              pixels' ! pixel_index x y c =
                (case pixel_colour x y of None \<Rightarrow> pixels ! pixel_index x y c
                 | Some (r, g, b) \<Rightarrow> [r, g, b] ! c)"
    by blast
  have c0: "pixels' ! ((y * WIDTH + x) * 3 + 0) = word_of_int (trunc_zero r)"
    using p(2) [OF assms(1,2), of 0] pixel_index_eq(1) [OF assms(1,2), of 0] by (simp add: col)
  have c1: "pixels' ! ((y * WIDTH + x) * 3 + 1) = word_of_int (trunc_zero g)"
    using p(2) [OF assms(1,2), of 1] pixel_index_eq(1) [OF assms(1,2), of 1] by (simp add: col)
  have c2: "pixels' ! ((y * WIDTH + x) * 3 + 2) = word_of_int (trunc_zero b)"
    using p(2) [OF assms(1,2), of 2] pixel_index_eq(1) [OF assms(1,2), of 2] by (simp add: col)
  show ?thesis
    by (intro exI [of _ i] exI [of _ j] exI [of _ k] exI [of _ r] exI [of _ g] exI [of _ b]
        exI [of _ pixels'] conjI i(1) j(1) k(1) i(2) j(2) k(2) p(1) c0 c1 c2)
qed

text \<open>
  At the centre of the canvas the blue channel is 85, the truncation of
  \<open>85.66...\<close>, where rounding to nearest would give 86.
\<close>

theorem inside_pixel_channels_witness:
  "256 < WIDTH \<and> 256 < HEIGHT \<and> length cleared = WIDTH * HEIGHT * 3 \<and>
   test_edge main_edge0 (pixel_centre 256 256) = Finite 64769 \<and>
   test_edge main_edge1 (pixel_centre 256 256) = Finite 65281 \<and>
   test_edge main_edge2 (pixel_centre 256 256) = Finite 65791 \<and>
   fmul (fdiv (Finite 65791) main_area) (Finite 255) = Finite (5614137 / 65536) \<and>
   round_even (5614137 / 65536) = 86 \<and>
   (\<exists>pixels'. rasterize cleared = Some pixels' \<and>
      pixels' ! ((256 * WIDTH + 256) * 3 + 0) = 84 \<and>
      pixels' ! ((256 * WIDTH + 256) * 3 + 1) = 85 \<and>
      pixels' ! ((256 * WIDTH + 256) * 3 + 2) = 85)"
proof -
  have l: "length cleared = WIDTH * HEIGHT * 3" by (simp add: cleared_def)
  have p: "(0::rat) < 64769" "(0::rat) < 65281" "(0::rat) < 65791" by simp_all
  from inside_pixel_channels [OF centre_pixel_values(1,2) l centre_pixel_values(3-5) p]
  obtain i j k r g b pixels' where
    e: "fdiv (Finite 64769) main_area = Finite i"
       "fdiv (Finite 65281) main_area = Finite j"
       "fdiv (Finite 65791) main_area = Finite k"
       "fmul (Finite i) (Finite 255) = Finite r"
       "fmul (Finite j) (Finite 255) = Finite g"
       "fmul (Finite k) (Finite 255) = Finite b"
       "rasterize cleared = Some pixels'"
       "pixels' ! ((256 * WIDTH + 256) * 3 + 0) = word_of_int (trunc_zero r)"
       "pixels' ! ((256 * WIDTH + 256) * 3 + 1) = word_of_int (trunc_zero g)"
       "pixels' ! ((256 * WIDTH + 256) * 3 + 2) = word_of_int (trunc_zero b)"
    by blast
  have i: "i = 11097201 / 33554432" using e(1) unfolding centre_pixel_weights(1) by (simp only: f32.inject)
  have j: "j = 11184925 / 33554432" using e(2) unfolding centre_pixel_weights(2) by (simp only: f32.inject)
  have k: "k = 5636153 / 16777216" using e(3) unfolding centre_pixel_weights(3) by (simp only: f32.inject)
  have r: "r = 11053853 / 131072" using e(4) unfolding i centre_pixel_weights(4) by (simp only: f32.inject)
  have g: "g = 5570617 / 65536" using e(5) unfolding j centre_pixel_weights(5) by (simp only: f32.inject)
  have b: "b = 5614137 / 65536" using e(6) unfolding k centre_pixel_weights(6) by (simp only: f32.inject)
  have "pixels' ! ((256 * WIDTH + 256) * 3 + 0) = 84"
       "pixels' ! ((256 * WIDTH + 256) * 3 + 1) = 85"
       "pixels' ! ((256 * WIDTH + 256) * 3 + 2) = 85"
    using e(8-10) unfolding r g b centre_pixel_trunc by simp_all
  with e(7) have "\<exists>pixels'. rasterize cleared = Some pixels' \<and>
      pixels' ! ((256 * WIDTH + 256) * 3 + 0) = 84 \<and>
      pixels' ! ((256 * WIDTH + 256) * 3 + 1) = 85 \<and>
      pixels' ! ((256 * WIDTH + 256) * 3 + 2) = 85"
    by blast
  then show ?thesis
    using centre_pixel_values l centre_pixel_weights centre_pixel_trunc(4) by simp
qed

subsection \<open>Ranges of the weights and the channel values\<close>

text \<open>
  C9. The area of \<^verbatim>\<open>main\<close> is \<open>195841\<close>, so the divisions are by a positive number; for
  every inside pixel each edge value \<open>d\<close> satisfies \<open>0 < d < area\<close>, each weight lies
  strictly between 0 and 1, and each truncated channel value is between 0 and 254, so
  that the conversion to \<^verbatim>\<open>uint8_t\<close> is defined and does not wrap.
\<close>

theorem weights_and_channels_in_range:
  assumes "x < WIDTH" and "y < HEIGHT"
    and "test_edge main_edge0 (pixel_centre x y) = Finite d0"
    and "test_edge main_edge1 (pixel_centre x y) = Finite d1"
    and "test_edge main_edge2 (pixel_centre x y) = Finite d2"
    and "0 < d0" and "0 < d1" and "0 < d2"
  shows "main_area = Finite 195841 \<and>
         (\<forall>d \<in> {d0, d1, d2}. 0 < d \<and> d < 195841 \<and>
            (\<exists>w p. fdiv (Finite d) main_area = Finite w \<and> 0 < w \<and> w < 1 \<and>
                   fmul (Finite w) (Finite 255) = Finite p \<and>
                   0 \<le> trunc_zero p \<and> trunc_zero p \<le> 254 \<and>
                   f32_to_u8 (Finite p) = Some (word_of_int (trunc_zero p))))"
proof -
  from centre_ranges [OF assms] obtain n0 n1 n2 :: int where
    n: "d0 = of_int n0" "d1 = of_int n1" "d2 = of_int n2"
       "1 \<le> n0" "n0 \<le> 195839" "1 \<le> n1" "n1 \<le> 195839" "1 \<le> n2" "n2 \<le> 195839"
    by blast
  have one: "0 < (of_int n :: rat) \<and> (of_int n :: rat) < 195841 \<and>
            (\<exists>w p. fdiv (Finite (of_int n)) main_area = Finite w \<and> 0 < w \<and> w < 1 \<and>
                   fmul (Finite w) (Finite 255) = Finite p \<and>
                   0 \<le> trunc_zero p \<and> trunc_zero p \<le> 254 \<and>
                   f32_to_u8 (Finite p) = Some (word_of_int (trunc_zero p)))"
    if "1 \<le> n" "n \<le> 195839" for n :: int
  proof -
    have "0 < n" "n < 195841" using that by linarith+
    then have "0 < (of_int n :: rat)" "(of_int n :: rat) < 195841" by simp_all
    moreover from channel_ok [OF that] have
      "\<exists>w p. fdiv (Finite (of_int n)) main_area = Finite w \<and> 0 < w \<and> w < 1 \<and>
                   fmul (Finite w) (Finite 255) = Finite p \<and>
                   0 \<le> trunc_zero p \<and> trunc_zero p \<le> 254 \<and>
                   f32_to_u8 (Finite p) = Some (word_of_int (trunc_zero p))"
      by blast
    ultimately show ?thesis by blast
  qed
  show ?thesis
    using one [OF n(4,5)] one [OF n(6,7)] one [OF n(8,9)] main_area_eq unfolding n(1-3)
    by blast
qed

theorem weights_and_channels_in_range_witness:
  "256 < WIDTH \<and> 256 < HEIGHT \<and>
   test_edge main_edge0 (pixel_centre 256 256) = Finite 64769 \<and>
   test_edge main_edge1 (pixel_centre 256 256) = Finite 65281 \<and>
   test_edge main_edge2 (pixel_centre 256 256) = Finite 65791 \<and>
   main_area = Finite 195841 \<and>
   (\<exists>w p. fdiv (Finite 64769) main_area = Finite w \<and> 0 < w \<and> w < 1 \<and>
          fmul (Finite w) (Finite 255) = Finite p \<and>
          0 \<le> trunc_zero p \<and> trunc_zero p \<le> 254 \<and>
          f32_to_u8 (Finite p) = Some (word_of_int (trunc_zero p)))"
proof -
  have p: "(0::rat) < 64769" "(0::rat) < 65281" "(0::rat) < 65791" by simp_all
  from weights_and_channels_in_range [OF centre_pixel_values p] centre_pixel_values
  show ?thesis by simp
qed

subsection \<open>The sum of the edge values\<close>

lemma main_edges:
  "main_edge0 = \<lparr> edge_a = Finite (- 256), edge_b = Finite (- 511), edge_c = Finite (523009 / 2) \<rparr>"
  "main_edge1 = \<lparr> edge_a = Finite (- 255), edge_b = Finite 256, edge_c = Finite (130049 / 2) \<rparr>"
  "main_edge2 = \<lparr> edge_a = Finite 511, edge_b = Finite 255, edge_c = Finite (- 130688) \<rparr>"
  unfolding main_edge0_def main_edge1_def main_edge2_def main_v0_eq main_v1_eq main_v2_eq
    init_edge_grid [OF on_grid_main(3) on_grid_main(2)]
    init_edge_grid [OF on_grid_main(1) on_grid_main(3)]
    init_edge_grid [OF on_grid_main(2) on_grid_main(1)]
  by simp_all

lemma off_grid_values:
  "test_edge main_edge0 (vec2 (3 / 1024, 0)) = Finite (1046015 / 4)"
  "test_edge main_edge1 (vec2 (3 / 1024, 0)) = Finite (16646081 / 256)"
  "test_edge main_edge2 (vec2 (3 / 1024, 0)) = Finite (- (261373 / 2))"
proof -
  have p0: "f32_round (- (3 / 4)) = Finite (- (3 / 4))"
    using f32_round_exact [of "- 3" 2] by simp
  have s0: "f32_round (1046015 / 4) = Finite (1046015 / 4)"
    using f32_round_exact [of 1046015 2] by simp
  show "test_edge main_edge0 (vec2 (3 / 1024, 0)) = Finite (1046015 / 4)"
    by (simp add: test_edge_def main_edges vec2_def f32_round_zero p0 s0)
  have p1: "f32_round (- (765 / 1024)) = Finite (- (765 / 1024))"
    using f32_round_exact [of "- 765" 10] by simp
  have "f32_round (66584323 / 1024) = Finite (of_int 16646081 * 2 powi (15 - 23))"
    by (rule f32_round_eval) (simp_all add: power_int_minus)
  then have s1: "f32_round (66584323 / 1024) = Finite (16646081 / 256)"
    by (simp add: power_int_minus)
  show "test_edge main_edge1 (vec2 (3 / 1024, 0)) = Finite (16646081 / 256)"
    by (simp add: test_edge_def main_edges vec2_def f32_round_zero p1 s1)
  have p2: "f32_round (1533 / 1024) = Finite (1533 / 1024)"
    using f32_round_exact [of 1533 10] by simp
  have "f32_round (- (133822979 / 1024)) = Finite (of_int (- 16727872) * 2 powi (16 - 23))"
    by (rule f32_round_eval) (simp_all add: power_int_minus)
  then have s2: "f32_round (- (133822979 / 1024)) = Finite (- (261373 / 2))"
    by (simp add: power_int_minus)
  show "test_edge main_edge2 (vec2 (3 / 1024, 0)) = Finite (- (261373 / 2))"
    by (simp add: test_edge_def main_edges vec2_def f32_round_zero p2 s2)
qed

text \<open>
  C3, as stated, fails: at the point \<open>(3/1024, 0)\<close> the values of \<open>edge1\<close> and
  \<open>edge2\<close> are rounded (up by \<open>1/1024\<close> and by \<open>3/1024\<close>), and the three
  edge values sum to \<open>195841 + 1/256\<close>.
\<close>

theorem edge_sum_counterexample:
  "test_edge main_edge0 (vec2 (3 / 1024, 0)) = Finite (1046015 / 4) \<and>
   test_edge main_edge1 (vec2 (3 / 1024, 0)) = Finite (16646081 / 256) \<and>
   test_edge main_edge2 (vec2 (3 / 1024, 0)) = Finite (- (261373 / 2)) \<and>
   main_area = Finite 195841 \<and>
   (1046015 / 4 + 16646081 / 256 + (- (261373 / 2)) :: rat) \<noteq> 195841"
  using off_grid_values main_area_eq by simp

text \<open>
  C3, amended. For every pixel centre of the canvas, the three edge values are computed
  without rounding (they are the exact values of \<open>a * x + b * y + c\<close> for the
  coefficients of the three edges) and sum to the area; for every inside pixel the three
  weights sum to 1 within \<open>1e-4\<close>.
\<close>

theorem edge_sum_is_area_at_centres:
  assumes "x < WIDTH" and "y < HEIGHT"
  shows "\<exists>d0 d1 d2 a.
           test_edge main_edge0 (pixel_centre x y) = Finite d0 \<and>
           test_edge main_edge1 (pixel_centre x y) = Finite d1 \<and>
           test_edge main_edge2 (pixel_centre x y) = Finite d2 \<and>
           d0 = - 256 * (of_nat x + 1 / 2) - 511 * (of_nat y + 1 / 2) + 523009 / 2 \<and>
           d1 = - 255 * (of_nat x + 1 / 2) + 256 * (of_nat y + 1 / 2) + 130049 / 2 \<and>
           d2 = 511 * (of_nat x + 1 / 2) + 255 * (of_nat y + 1 / 2) - 130688 \<and>
           main_area = Finite a \<and> d0 + d1 + d2 = a \<and>
           (0 < d0 \<and> 0 < d1 \<and> 0 < d2 \<longrightarrow>
              (\<exists>i j k. fdiv (Finite d0) main_area = Finite i \<and>
                        fdiv (Finite d1) main_area = Finite j \<and>
                        fdiv (Finite d2) main_area = Finite k \<and>
                        \<bar>i + j + k - 1\<bar> \<le> 1 / 10000))"
proof -
  define n0 where "n0 = 261121 - 256 * int x - 511 * int y"
  define n1 where "n1 = 65025 - 255 * int x + 256 * int y"
  define n2 where "n2 = 511 * int x + 255 * int y - 130305"
  note d = main_d0 [OF assms, folded n0_def] main_d1 [OF assms, folded n1_def]
    main_d2 [OF assms, folded n2_def]
  have s: "n0 + n1 + n2 = 195841" by (simp add: n0_def n1_def n2_def)
  have sum: "(of_int n0 :: rat) + of_int n1 + of_int n2 = 195841"
  proof -
    have "(of_int n0 :: rat) + of_int n1 + of_int n2 = of_int (n0 + n1 + n2)" by simp
    then show ?thesis unfolding s by simp
  qed
  have w: "\<exists>i j k. fdiv (Finite (of_int n0)) main_area = Finite i \<and>
                        fdiv (Finite (of_int n1)) main_area = Finite j \<and>
                        fdiv (Finite (of_int n2)) main_area = Finite k \<and>
                        \<bar>i + j + k - 1\<bar> \<le> 1 / 10000"
    if "0 < (of_int n0 :: rat) \<and> 0 < (of_int n1 :: rat) \<and> 0 < (of_int n2 :: rat)"
  proof -
    have p: "0 < n0" "0 < n1" "0 < n2" using that by simp_all
    have r: "1 \<le> n0" "n0 \<le> 195839" "1 \<le> n1" "n1 \<le> 195839" "1 \<le> n2" "n2 \<le> 195839"
      using p s by linarith+
    from channel_ok [OF r(1,2)] obtain i where
      i: "fdiv (Finite (of_int n0)) main_area = Finite i" "\<bar>i - of_int n0 / 195841\<bar> \<le> 1 / 2 ^ 25"
      by blast
    from channel_ok [OF r(3,4)] obtain j where
      j: "fdiv (Finite (of_int n1)) main_area = Finite j" "\<bar>j - of_int n1 / 195841\<bar> \<le> 1 / 2 ^ 25"
      by blast
    from channel_ok [OF r(5,6)] obtain k where
      k: "fdiv (Finite (of_int n2)) main_area = Finite k" "\<bar>k - of_int n2 / 195841\<bar> \<le> 1 / 2 ^ 25"
      by blast
    have "(of_int n0 :: rat) / 195841 + of_int n1 / 195841 + of_int n2 / 195841
            = (of_int n0 + of_int n1 + of_int n2) / 195841"
      by (simp add: add_divide_distrib)
    also have "\<dots> = 1" unfolding sum by simp
    finally have one: "(of_int n0 :: rat) / 195841 + of_int n1 / 195841 + of_int n2 / 195841 = 1" .
    have "\<bar>i + j + k - 1\<bar> \<le> 3 / 2 ^ 25" using i(2) j(2) k(2) one by linarith
    also have "\<dots> \<le> (1 / 10000 :: rat)" by simp
    finally have "\<bar>i + j + k - 1\<bar> \<le> 1 / 10000" .
    with i(1) j(1) k(1) show ?thesis by blast
  qed
  from w have w': "0 < (of_int n0 :: rat) \<and> 0 < (of_int n1 :: rat) \<and> 0 < (of_int n2 :: rat) \<longrightarrow>
              (\<exists>i j k. fdiv (Finite (of_int n0)) main_area = Finite i \<and>
                        fdiv (Finite (of_int n1)) main_area = Finite j \<and>
                        fdiv (Finite (of_int n2)) main_area = Finite k \<and>
                        \<bar>i + j + k - 1\<bar> \<le> 1 / 10000)"
    by blast
  have x0: "(of_int n0 :: rat) = - 256 * (of_nat x + 1 / 2) - 511 * (of_nat y + 1 / 2) + 523009 / 2"
    by (simp add: n0_def algebra_simps)
  have x1: "(of_int n1 :: rat) = - 255 * (of_nat x + 1 / 2) + 256 * (of_nat y + 1 / 2) + 130049 / 2"
    by (simp add: n1_def algebra_simps)
  have x2: "(of_int n2 :: rat) = 511 * (of_nat x + 1 / 2) + 255 * (of_nat y + 1 / 2) - 130688"
    by (simp add: n2_def algebra_simps)
  show ?thesis
    by (intro exI [of _ "of_int n0"] exI [of _ "of_int n1"] exI [of _ "of_int n2"]
        exI [of _ 195841] conjI d x0 x1 x2 main_area_eq sum w')
qed

theorem edge_sum_is_area_at_centres_witness:
  "256 < WIDTH \<and> 256 < HEIGHT \<and>
   test_edge main_edge0 (pixel_centre 256 256) = Finite 64769 \<and>
   test_edge main_edge1 (pixel_centre 256 256) = Finite 65281 \<and>
   test_edge main_edge2 (pixel_centre 256 256) = Finite 65791 \<and>
   main_area = Finite (64769 + 65281 + 65791) \<and>
   (\<exists>i j k. fdiv (Finite 64769) main_area = Finite i \<and>
             fdiv (Finite 65281) main_area = Finite j \<and>
             fdiv (Finite 65791) main_area = Finite k \<and>
             \<bar>i + j + k - 1\<bar> \<le> 1 / 10000)"
  using edge_sum_is_area_at_centres [OF centre_pixel_values(1,2)] centre_pixel_values
    main_area_eq
  by auto

subsection \<open>The bitmap file\<close>

text \<open>
  C6. For a width and a height whose file size fits an \<^verbatim>\<open>int\<close> and a pixel array of
  \<open>w * h * 3\<close> bytes, the writer builds exactly the layout of the specification: the
  54-byte header, which begins with \<open>B\<close>, \<open>M\<close>, then the rows from the last to the
  first, the pixel \<open>(x, y)\<close> as its bytes in the order B, G, R, each row followed by
  \<open>padding = (4 - (w * 3) mod 4) mod 4\<close> zero bytes, so that a row is a multiple of
  4 bytes, \<open>54 + (w * 3 + padding) * h\<close> bytes in all; that is \<open>786486\<close> for the
  canvas of 512 x 512.
\<close>

theorem bmp_bytes_layout_correct:
  fixes w h padding fsize :: nat
  assumes "padding = (4 - (w * 3) mod 4) mod 4"
    and "fsize = 54 + (w * 3 + padding) * h"
    and "w * 3 + padding < 2 ^ 31" and "fsize < 2 ^ 31" and "h < 2 ^ 31"
    and "length pixels = w * h * 3"
  shows "\<exists>bytes. bmp_bytes fresh pixels (int w) (int h) = Some bytes \<and>
           bytes = bmp_layout pixels w h \<and>
           length bytes = fsize \<and>
           take 54 bytes = bmp_header (int fsize) (int w) (int h) \<and>
           take 2 bytes = [0x42, 0x4D] \<and>
           bmp_padding (int w) = Some (int padding) \<and>
           (w * 3 + padding) mod 4 = 0 \<and>
           (\<forall>y<h. \<forall>x<w. \<forall>c<3.
              bytes ! (54 + (h - 1 - y) * (w * 3 + padding) + x * 3 + c) =
                pixels ! ((y * w + x) * 3 + (2 - c))) \<and>
           (\<forall>y<h. \<forall>i<padding.
              bytes ! (54 + (h - 1 - y) * (w * 3 + padding) + w * 3 + i) = 0)"
proof -
  have a: "w * 3 + (4 - (w * 3) mod 4) mod 4 < 2 ^ 31" using assms(3) unfolding assms(1) .
  have b: "54 + (w * 3 + (4 - (w * 3) mod 4) mod 4) * h < 2 ^ 31"
    using assms(4) unfolding assms(2) assms(1) .
  have c: "h * w * 3 \<le> length pixels" using assms(6) by (simp add: mult.commute)
  have 1: "bmp_bytes fresh pixels (int w) (int h) = Some (bmp_layout pixels w h)"
    using a b assms(5) c by (rule bmp_bytes_layout)
  have 2: "length (bmp_layout pixels w h) = fsize"
    unfolding assms(2) assms(1) by (rule length_bmp_layout)
  have 3: "take 54 (bmp_layout pixels w h) = bmp_header (int fsize) (int w) (int h)"
    unfolding assms(2) assms(1) by (rule take_bmp_layout)
  have "take 2 (take 54 (bmp_layout pixels w h)) = [0x42, 0x4D]"
    unfolding 3 by (rule bmp_header_start)
  then have 4: "take 2 (bmp_layout pixels w h) = [0x42, 0x4D]" by simp
  have w3: "w * 3 < 2 ^ 31" using assms(3) by linarith
  have 5: "bmp_padding (int w) = Some (int padding)"
    unfolding assms(1) using w3 by (rule bmp_padding_nat)
  have 6: "(w * 3 + padding) mod 4 = 0" unfolding assms(1) by (rule row_multiple_of_4)
  have 7: "bmp_layout pixels w h ! (54 + (h - 1 - y) * (w * 3 + padding) + x * 3 + c) =
                pixels ! ((y * w + x) * 3 + (2 - c))"
    if "y < h" "x < w" "c < 3" for y x c
  proof -
    have j: "x * 3 + c < w * 3 + (4 - (w * 3) mod 4) mod 4" using that(2,3) by linarith
    have "bmp_layout pixels w h ! (54 + (h - 1 - y) * (w * 3 + padding) + (x * 3 + c)) =
            bmp_row pixels w padding y ! (x * 3 + c)"
      unfolding assms(1) using that(1) j by (rule bmp_layout_nth_row)
    also have "\<dots> = pixels ! ((y * w + x) * 3 + (2 - c))"
      using that(2,3) by (rule bmp_row_nth_pixel)
    finally show ?thesis by (simp add: add.assoc)
  qed
  have 8: "bmp_layout pixels w h ! (54 + (h - 1 - y) * (w * 3 + padding) + w * 3 + i) = 0"
    if "y < h" "i < padding" for y i
  proof -
    have j: "w * 3 + i < w * 3 + (4 - (w * 3) mod 4) mod 4" using that(2) unfolding assms(1) by simp
    have "bmp_layout pixels w h ! (54 + (h - 1 - y) * (w * 3 + padding) + (w * 3 + i)) =
            bmp_row pixels w padding y ! (w * 3 + i)"
      unfolding assms(1) using that(1) j by (rule bmp_layout_nth_row)
    also have "\<dots> = 0" using that(2) by (rule bmp_row_nth_padding)
    finally show ?thesis by (simp add: add.assoc)
  qed
  have p7: "\<forall>y<h. \<forall>x<w. \<forall>c<3.
              bmp_layout pixels w h ! (54 + (h - 1 - y) * (w * 3 + padding) + x * 3 + c) =
                pixels ! ((y * w + x) * 3 + (2 - c))"
    using 7 by blast
  have p8: "\<forall>y<h. \<forall>i<padding.
              bmp_layout pixels w h ! (54 + (h - 1 - y) * (w * 3 + padding) + w * 3 + i) = 0"
    using 8 by blast
  show ?thesis
    by (intro exI [of _ "bmp_layout pixels w h"] conjI 1 refl 2 3 4 5 6 p7 p8)
qed

theorem bmp_bytes_layout_correct_witness:
  "(0::nat) = (4 - (512 * 3) mod 4) mod 4 \<and> (786486::nat) = 54 + (512 * 3 + 0) * 512 \<and>
   (512::nat) * 3 + 0 < 2 ^ 31 \<and> (786486::nat) < 2 ^ 31 \<and> (512::nat) < 2 ^ 31 \<and>
   length cleared = 512 * 512 * 3 \<and>
   (\<exists>bytes. bmp_bytes (\<lambda>n. 0) cleared 512 512 = Some bytes \<and> length bytes = 786486 \<and>
      take 2 bytes = [0x42, 0x4D]) \<and>
   bmp_bytes (\<lambda>n. 0) [1, 2, 3, 4, 5, 6] 1 2 =
     Some [66, 77, 62, 0, 0, 0, 0, 0, 0, 0, 54, 0, 0, 0, 40, 0, 0, 0, 1, 0, 0, 0, 2, 0, 0, 0,
      1, 0, 24, 0, 0, 0, 0, 0, 0, 0, 0, 0, 0, 0, 0, 0, 0, 0, 0, 0, 0, 0, 0, 0, 0, 0, 0, 0,
      6, 5, 4, 0, 3, 2, 1, 0]"
proof -
  have h: "(0::nat) = (4 - (512 * 3) mod 4) mod 4" "(786486::nat) = 54 + (512 * 3 + 0) * 512"
    "(512::nat) * 3 + 0 < 2 ^ 31" "(786486::nat) < 2 ^ 31" "(512::nat) < 2 ^ 31"
    "length cleared = 512 * 512 * 3"
    by (simp_all add: cleared_def WIDTH_def HEIGHT_def)
  from bmp_bytes_layout_correct [OF h, of "\<lambda>n. 0"] obtain bytes where
    b: "bmp_bytes (\<lambda>n. 0) cleared (int 512) (int 512) = Some bytes" "length bytes = 786486"
       "take 2 bytes = [0x42, 0x4D]"
    by blast
  have a: "\<exists>bytes. bmp_bytes (\<lambda>n. 0) cleared 512 512 = Some bytes \<and> length bytes = 786486 \<and>
      take 2 bytes = [0x42, 0x4D]"
    using b by (intro exI [of _ bytes]) simp
  have g: "(1::nat) = (4 - (1 * 3) mod 4) mod 4" "(62::nat) = 54 + (1 * 3 + 1) * 2"
    "(1::nat) * 3 + 1 < 2 ^ 31" "(62::nat) < 2 ^ 31" "(2::nat) < 2 ^ 31"
    "length [1, 2, 3, 4, 5, 6 :: u8] = 1 * 2 * 3"
    by simp_all
  from bmp_bytes_layout_correct [OF g, of "\<lambda>n. 0"] have
    "bmp_bytes (\<lambda>n. 0) [1, 2, 3, 4, 5, 6] (int 1) (int 2) = Some (bmp_layout [1, 2, 3, 4, 5, 6] 1 2)"
    by blast
  then have "bmp_bytes (\<lambda>n. 0) [1, 2, 3, 4, 5, 6] 1 2 = Some (bmp_layout [1, 2, 3, 4, 5, 6] 1 2)"
    by simp
  then show ?thesis using h a unfolding small_bitmap by simp
qed

subsection \<open>The exit status\<close>

text \<open>
  C8. \<^verbatim>\<open>main\<close> always returns: with \<^verbatim>\<open>EXIT_FAILURE\<close> and the message
  \<^verbatim>\<open>Failed to open file 'result.bmp'\<close> on the standard output when the path cannot
  be opened for writing, and with \<^verbatim>\<open>EXIT_SUCCESS\<close> and the file of 786486 bytes
  written otherwise. \<^verbatim>\<open>save_pixels_as_bmp\<close> returns the same way for any path, once
  its buffer is built.
\<close>

theorem main_exit_status:
  "(\<exists>bytes. length bytes = 786486 \<and>
      main env =
        Some (if can_open env ''result.bmp''
              then (EXIT_SUCCESS, env\<lparr>files := (files env)(''result.bmp'' \<mapsto> bytes)\<rparr>)
              else (EXIT_FAILURE,
                    env\<lparr>stdout := stdout env @ ''Failed to open file '' @ [CHR 0x27]
                                      @ ''result.bmp'' @ [CHR 0x27, CHR 0x0A]\<rparr>))) \<and>
   (\<forall>path pixels w h bytes.
      bmp_bytes (fresh_memory env) pixels w h = Some bytes \<longrightarrow>
      save_pixels_as_bmp path pixels w h env =
        Some (if can_open env path
              then (EXIT_SUCCESS, env\<lparr>files := (files env)(path \<mapsto> bytes)\<rparr>)
              else (EXIT_FAILURE,
                    env\<lparr>stdout := stdout env @ ''Failed to open file '' @ [CHR 0x27]
                                      @ path @ [CHR 0x27, CHR 0x0A]\<rparr>)))"
proof -
  have s: "save_pixels_as_bmp path pixels w h env =
        Some (if can_open env path
              then (EXIT_SUCCESS, env\<lparr>files := (files env)(path \<mapsto> bytes)\<rparr>)
              else (EXIT_FAILURE,
                    env\<lparr>stdout := stdout env @ ''Failed to open file '' @ [CHR 0x27]
                                      @ path @ [CHR 0x27, CHR 0x0A]\<rparr>))"
    if "bmp_bytes (fresh_memory env) pixels w h = Some bytes" for path pixels w h bytes
    unfolding save_pixels_as_bmp_def that by simp
  from rasterize_cleared obtain pixels where
    p: "rasterize cleared = Some pixels" "length pixels = WIDTH * HEIGHT * 3" by blast
  note b = canvas_bitmap(1) [OF p(2), of "fresh_memory env"] canvas_bitmap(2) [OF p(2)]
  have "main env = save_pixels_as_bmp ''result.bmp'' pixels (int WIDTH) (int HEIGHT) env"
    by (simp add: main_def p(1))
  also note s [OF b(1)]
  finally have m: "main env =
        Some (if can_open env ''result.bmp''
              then (EXIT_SUCCESS,
                    env\<lparr>files := (files env)(''result.bmp'' \<mapsto> bmp_layout pixels WIDTH HEIGHT)\<rparr>)
              else (EXIT_FAILURE,
                    env\<lparr>stdout := stdout env @ ''Failed to open file '' @ [CHR 0x27]
                                      @ ''result.bmp'' @ [CHR 0x27, CHR 0x0A]\<rparr>))" .
  have "\<exists>bytes. length bytes = 786486 \<and>
      main env =
        Some (if can_open env ''result.bmp''
              then (EXIT_SUCCESS, env\<lparr>files := (files env)(''result.bmp'' \<mapsto> bytes)\<rparr>)
              else (EXIT_FAILURE,
                    env\<lparr>stdout := stdout env @ ''Failed to open file '' @ [CHR 0x27]
                                      @ ''result.bmp'' @ [CHR 0x27, CHR 0x0A]\<rparr>))"
    by (intro exI [of _ "bmp_layout pixels WIDTH HEIGHT"] conjI b(2) m)
  then show ?thesis using s by blast
qed

theorem main_exit_status_witness:
  "bmp_bytes (\<lambda>n. 0) [1, 2, 3, 4, 5, 6] 1 2 = Some (bmp_layout [1, 2, 3, 4, 5, 6] 1 2) \<and>
   save_pixels_as_bmp ''a.bmp'' [1, 2, 3, 4, 5, 6] 1 2
       \<lparr>can_open = (\<lambda>p. False), files = Map.empty, stdout = [], fresh_memory = (\<lambda>n. 0)\<rparr> =
     Some (EXIT_FAILURE,
           \<lparr>can_open = (\<lambda>p. False), files = Map.empty,
            stdout = ''Failed to open file '' @ [CHR 0x27] @ ''a.bmp'' @ [CHR 0x27, CHR 0x0A],
            fresh_memory = (\<lambda>n. 0)\<rparr>) \<and>
   main \<lparr>can_open = (\<lambda>p. False), files = Map.empty, stdout = [], fresh_memory = (\<lambda>n. 0)\<rparr> =
     Some (EXIT_FAILURE,
           \<lparr>can_open = (\<lambda>p. False), files = Map.empty,
            stdout = ''Failed to open file '' @ [CHR 0x27] @ ''result.bmp'' @ [CHR 0x27, CHR 0x0A],
            fresh_memory = (\<lambda>n. 0)\<rparr>) \<and>
   map_option fst
     (main \<lparr>can_open = (\<lambda>p. True), files = Map.empty, stdout = [], fresh_memory = (\<lambda>n. 0)\<rparr>) =
     Some EXIT_SUCCESS"
proof -
  define e0 :: world where
    "e0 = \<lparr>can_open = (\<lambda>p. False), files = Map.empty, stdout = [], fresh_memory = (\<lambda>n. 0)\<rparr>"
  define e1 :: world where
    "e1 = \<lparr>can_open = (\<lambda>p. True), files = Map.empty, stdout = [], fresh_memory = (\<lambda>n. 0)\<rparr>"
  have b: "bmp_bytes (\<lambda>n. 0) [1, 2, 3, 4, 5, 6] 1 2 = Some (bmp_layout [1, 2, 3, 4, 5, 6] 1 2)"
    using bmp_bytes_layout [of 1 2 "[1, 2, 3, 4, 5, 6]" "\<lambda>n. 0"] by simp
  then have b': "bmp_bytes (fresh_memory e0) [1, 2, 3, 4, 5, 6] 1 2 = Some (bmp_layout [1, 2, 3, 4, 5, 6] 1 2)"
    by (simp add: e0_def)
  have s0: "save_pixels_as_bmp ''a.bmp'' [1, 2, 3, 4, 5, 6] 1 2 e0 =
     Some (EXIT_FAILURE,
           e0\<lparr>stdout := stdout e0 @ ''Failed to open file '' @ [CHR 0x27] @ ''a.bmp'' @ [CHR 0x27, CHR 0x0A]\<rparr>)"
    using main_exit_status [of e0] b' by (simp add: e0_def)
  have m0: "main e0 =
     Some (EXIT_FAILURE,
           e0\<lparr>stdout := stdout e0 @ ''Failed to open file '' @ [CHR 0x27] @ ''result.bmp'' @ [CHR 0x27, CHR 0x0A]\<rparr>)"
    using main_exit_status [of e0] by (auto simp: e0_def)
  have m1: "map_option fst (main e1) = Some EXIT_SUCCESS"
    using main_exit_status [of e1] by (auto simp: e1_def)
  show ?thesis using b s0 m0 m1 unfolding e0_def e1_def by simp
qed

subsection \<open>Buffer accesses\<close>

text \<open>
  C10. For every pixel \<open>(x, y)\<close> of the canvas and every channel, the index
  \<open>(y * 512 + x) * 3 + c\<close> of \<^verbatim>\<open>main\<close> is below the length \<open>512 * 512 * 3\<close> of the
  pixel array, and the pixel loops and the writer of \<^verbatim>\<open>main\<close> run without a failing
  access. For any width and height whose file size fits an \<^verbatim>\<open>int\<close> and a pixel array
  of \<open>w * h * 3\<close> bytes, every read \<^verbatim>\<open>pixels[(y*w+x)*3+i]\<close> of the writer is inside
  the array and the writer fills a buffer of \<open>54 + (w * 3 + padding) * h\<close> bytes without
  a failing access.
\<close>

theorem accesses_in_bounds:
  "(\<forall>x<WIDTH. \<forall>y<HEIGHT. \<forall>c<3.
      pixel_index x y c = (y * 512 + x) * 3 + c \<and> pixel_index x y c < length cleared) \<and>
   length cleared = 512 * 512 * 3 \<and>
   (\<exists>pixels. rasterize cleared = Some pixels \<and> length pixels = 512 * 512 * 3 \<and>
      (\<exists>bytes. bmp_bytes fresh pixels (int WIDTH) (int HEIGHT) = Some bytes \<and>
         length bytes = 54 + (512 * 3 + 0) * 512)) \<and>
   (\<forall>w h pixels. w * 3 + (4 - (w * 3) mod 4) mod 4 < 2 ^ 31 \<longrightarrow>
       54 + (w * 3 + (4 - (w * 3) mod 4) mod 4) * h < 2 ^ 31 \<longrightarrow> h < 2 ^ 31 \<longrightarrow>
       length pixels = w * h * 3 \<longrightarrow>
       (\<forall>y<h. \<forall>x<w. \<forall>i<3. load pixels (int ((y * w + x) * 3 + i)) \<noteq> None) \<and>
       (\<exists>bytes. bmp_bytes fresh pixels (int w) (int h) = Some bytes \<and>
          length bytes = 54 + (w * 3 + (4 - (w * 3) mod 4) mod 4) * h))"
proof -
  have l: "length cleared = 512 * 512 * 3" by (simp add: cleared_def WIDTH_def HEIGHT_def)
  have i: "\<forall>x<WIDTH. \<forall>y<HEIGHT. \<forall>c<3.
      pixel_index x y c = (y * 512 + x) * 3 + c \<and> pixel_index x y c < length cleared"
  proof (intro allI impI)
    fix x y c :: nat
    assume a: "x < WIDTH" "y < HEIGHT" "c < 3"
    have "length cleared = WIDTH * HEIGHT * 3" by (simp add: cleared_def)
    with pixel_index_eq [OF a] show
      "pixel_index x y c = (y * 512 + x) * 3 + c \<and> pixel_index x y c < length cleared"
      by (simp add: WIDTH_def)
  qed
  from rasterize_cleared obtain pixels where
    p: "rasterize cleared = Some pixels" "length pixels = WIDTH * HEIGHT * 3" by blast
  note b = canvas_bitmap(1) [OF p(2), of fresh] canvas_bitmap(2) [OF p(2)]
  have r: "\<exists>pixels. rasterize cleared = Some pixels \<and> length pixels = 512 * 512 * 3 \<and>
      (\<exists>bytes. bmp_bytes fresh pixels (int WIDTH) (int HEIGHT) = Some bytes \<and>
         length bytes = 54 + (512 * 3 + 0) * 512)"
    using p b by (intro exI [of _ pixels] conjI exI [of _ "bmp_layout pixels WIDTH HEIGHT"])
      (simp_all add: WIDTH_def HEIGHT_def)
  have g: "(\<forall>y<h. \<forall>x<w. \<forall>i<3. load pixels (int ((y * w + x) * 3 + i)) \<noteq> None) \<and>
       (\<exists>bytes. bmp_bytes fresh pixels (int w) (int h) = Some bytes \<and>
          length bytes = 54 + (w * 3 + (4 - (w * 3) mod 4) mod 4) * h)"
    if a: "w * 3 + (4 - (w * 3) mod 4) mod 4 < 2 ^ 31"
      "54 + (w * 3 + (4 - (w * 3) mod 4) mod 4) * h < 2 ^ 31" "h < 2 ^ 31"
      "length pixels = w * h * 3" for w h :: nat and pixels
  proof -
    have c: "h * w * 3 \<le> length pixels" using a(4) by (simp add: mult.commute)
    have "bmp_bytes fresh pixels (int w) (int h) = Some (bmp_layout pixels w h)"
      using a(1-3) c by (rule bmp_bytes_layout)
    then have e: "\<exists>bytes. bmp_bytes fresh pixels (int w) (int h) = Some bytes \<and>
          length bytes = 54 + (w * 3 + (4 - (w * 3) mod 4) mod 4) * h"
      using length_bmp_layout [of pixels w h] by blast
    have "load pixels (int ((y * w + x) * 3 + i)) \<noteq> None" if "y < h" "x < w" "i < 3" for y x i
    proof -
      have "y * w + x < h * w"
      proof -
        have "y * w + x < y * w + w" using that(2) by simp
        also have "\<dots> = (y + 1) * w" by simp
        also have "\<dots> \<le> h * w" using that(1) by (intro mult_le_mono1) simp
        finally show ?thesis .
      qed
      then have "(y * w + x) * 3 + i < w * h * 3" using that(3) by (simp add: mult.commute)
      then have "(y * w + x) * 3 + i < length pixels" unfolding a(4) .
      then have "load pixels (int ((y * w + x) * 3 + i)) = Some (pixels ! ((y * w + x) * 3 + i))"
        by (rule load_nat)
      then show ?thesis by (simp only: option.distinct not_False_eq_True)
    qed
    with e show ?thesis by blast
  qed
  show ?thesis using i l r g by blast
qed

theorem accesses_in_bounds_witness:
  "(511::nat) < WIDTH \<and> (511::nat) < HEIGHT \<and> (2::nat) < 3 \<and>
   pixel_index 511 511 2 = 786431 \<and> pixel_index 511 511 2 < length cleared \<and>
   length cleared = 786432 \<and>
   (1::nat) * 3 + (4 - (1 * 3) mod 4) mod 4 < 2 ^ 31 \<and>
   54 + ((1::nat) * 3 + (4 - (1 * 3) mod 4) mod 4) * 2 < 2 ^ 31 \<and> (2::nat) < 2 ^ 31 \<and>
   length [1, 2, 3, 4, 5, 6 :: u8] = 1 * 2 * 3 \<and>
   load [1, 2, 3, 4, 5, 6] (int ((1 * 1 + 0) * 3 + 2)) \<noteq> None \<and>
   (\<exists>bytes. bmp_bytes (\<lambda>n. 0) [1, 2, 3, 4, 5, 6] (int 1) (int 2) = Some bytes \<and> length bytes = 62)"
proof -
  have h: "(511::nat) < WIDTH" "(511::nat) < HEIGHT" "(2::nat) < 3"
    by (simp_all add: WIDTH_def HEIGHT_def)
  have g: "(1::nat) * 3 + (4 - (1 * 3) mod 4) mod 4 < 2 ^ 31"
    "54 + ((1::nat) * 3 + (4 - (1 * 3) mod 4) mod 4) * 2 < 2 ^ 31" "(2::nat) < 2 ^ 31"
    "length [1, 2, 3, 4, 5, 6 :: u8] = 1 * 2 * 3"
    by simp_all
  note t = accesses_in_bounds [of "\<lambda>n. 0"]
  from t h have a: "pixel_index 511 511 2 = (511 * 512 + 511) * 3 + 2"
    "pixel_index 511 511 2 < length cleared" "length cleared = 512 * 512 * 3"
    by blast+
  from t g have b: "(\<forall>y<2. \<forall>x<1. \<forall>i<3. load [1, 2, 3, 4, 5, 6 :: u8] (int ((y * 1 + x) * 3 + i)) \<noteq> None) \<and>
       (\<exists>bytes. bmp_bytes (\<lambda>n. 0) [1, 2, 3, 4, 5, 6] (int 1) (int 2) = Some bytes \<and>
          length bytes = 54 + (1 * 3 + (4 - (1 * 3) mod 4) mod 4) * 2)"
    by blast
  then have c0: "\<forall>y<2. \<forall>x<1. \<forall>i<3. load [1, 2, 3, 4, 5, 6 :: u8] (int ((y * 1 + x) * 3 + i)) \<noteq> None"
    by (rule conjunct1)
  have c: "load [1, 2, 3, 4, 5, 6 :: u8] (int ((1 * 1 + 0) * 3 + 2)) \<noteq> None"
    by (rule c0 [rule_format, of 1 0 2]) simp_all
  from b have d: "\<exists>bytes. bmp_bytes (\<lambda>n. 0) [1, 2, 3, 4, 5, 6] (int 1) (int 2) = Some bytes \<and> length bytes = 62"
    by simp
  show ?thesis using h g a c d by simp
qed

end
